theory Spec2Isabelle
  imports
    Main
    "HOL-Library.Word"
    "HOL-Library.AList"
    "HOL-Library.Sublist"
    "HOL-Library.While_Combinator"
    "HOL-Library.Char_ord"
    "HOL-Library.List_Lexorder"
begin

section \<open>Strings, streams and the file system\<close>

text \<open>
  MiniGit keeps all of its state in files. The model represents the file system below the
  working directory as an association list from paths (relative to the working directory,
  components separated by \<open>/\<close>) to the byte content of regular files. Directories are
  implicit: a directory exists when some file lies beneath it. Paths are taken literally
  (no \<open>..\<close>, no symbolic links, no absolute right operand of \<open>operator/\<close>), and a write
  always succeeds, so \<open>Utils::writeFile\<close> returns \<open>true\<close> throughout.
  \<open>std::unordered_map\<close> is an association list with distinct keys whose order stands for
  the (unspecified) iteration order; \<open>std::set<std::string>\<close> is a sorted list
  without duplicates.
\<close>

type_synonym path = string
type_synonym fs = "(path \<times> string) list"

abbreviation NL :: char where
  "NL \<equiv> CHR 0x0A"

definition pjoin :: "path \<Rightarrow> path \<Rightarrow> path" where
  "pjoin p q = p @ ''/'' @ q"

definition startsWith :: "string \<Rightarrow> string \<Rightarrow> bool" where
  "startsWith s pre = prefix pre s"

text \<open>
  \<open>Utils::readFile\<close>, when it returns: the content, or the empty string when the file
  cannot be opened. On a path that names a directory the call does not return, it throws;
  \<open>readFile_throws\<close>, with the ancestry walks, says when.
\<close>

definition readFile :: "fs \<Rightarrow> path \<Rightarrow> string" where
  "readFile fs p = (case map_of fs p of None \<Rightarrow> [] | Some c \<Rightarrow> c)"

definition writeFile :: "path \<Rightarrow> string \<Rightarrow> fs \<Rightarrow> fs" where
  "writeFile p c fs = AList.update p c fs"

definition is_regular_file :: "fs \<Rightarrow> path \<Rightarrow> bool" where
  "is_regular_file fs p = (map_of fs p \<noteq> None)"

definition is_directory :: "fs \<Rightarrow> path \<Rightarrow> bool" where
  "is_directory fs p = list_ex (\<lambda>e. prefix (p @ ''/'') (fst e)) fs"

text \<open>\<open>std::filesystem::exists\<close>.\<close>

definition fs_exists :: "fs \<Rightarrow> path \<Rightarrow> bool" where
  "fs_exists fs p = (is_regular_file fs p \<or> is_directory fs p)"

text \<open>
  \<open>std::string::find(' ')\<close> followed by \<open>substr(0, pos)\<close> and \<open>substr(pos + 1)\<close>:
  the text before and after the first occurrence of the character, if there is one.
\<close>

definition split_first :: "char \<Rightarrow> string \<Rightarrow> (string \<times> string) option" where
  "split_first c s =
     (if c \<in> set s then Some (takeWhile (\<lambda>x. x \<noteq> c) s, drop 1 (dropWhile (\<lambda>x. x \<noteq> c) s))
      else None)"

text \<open>\<open>s.substr(pos)\<close> throws \<open>std::out_of_range\<close> when \<open>pos > s.size()\<close>.\<close>

definition substr_from :: "string \<Rightarrow> nat \<Rightarrow> string option" where
  "substr_from s pos = (if length s < pos then None else Some (drop pos s))"

text \<open>
  One call of \<open>std::getline\<close> on the rest of a stream: the line read and what is left of
  the stream. On an exhausted stream the call fails and the line is empty.
\<close>

definition getline :: "string \<Rightarrow> string \<times> string" where
  "getline s = (takeWhile (\<lambda>c. c \<noteq> NL) s, drop 1 (dropWhile (\<lambda>c. c \<noteq> NL) s))"

lemma getline_shorter:
  assumes "s \<noteq> []"
  shows "length (snd (getline s)) < length s"
proof (cases "dropWhile (\<lambda>c. c \<noteq> NL) s")
  case Nil
  have "length (snd (getline s)) = 0"
    unfolding getline_def snd_conv Nil by simp
  with assms show ?thesis by simp
next
  case (Cons c r)
  have "length (c # r) \<le> length s"
    using length_dropWhile_le [of "\<lambda>c. c \<noteq> NL" s] unfolding Cons .
  moreover have "length (snd (getline s)) = length r"
    unfolding getline_def snd_conv Cons by simp
  ultimately show ?thesis by simp
qed

text \<open>The loop \<open>while (std::getline(ss, line))\<close>: every line it reads, in order.\<close>

function getlines :: "string \<Rightarrow> string list" where
  "getlines s = (if s = [] then [] else fst (getline s) # getlines (snd (getline s)))"
  by pat_completeness auto
termination
  by (relation "measure length") (auto simp: getline_shorter)

declare getlines.simps [simp del]

text \<open>White space as \<open>operator>>\<close> skips it (the C locale's \<open>isspace\<close>).\<close>

definition isspace :: "char \<Rightarrow> bool" where
  "isspace c = (c = CHR '' '' \<or> c = CHR 0x09 \<or> c = CHR 0x0A \<or> c = CHR 0x0B
                \<or> c = CHR 0x0C \<or> c = CHR 0x0D)"

lemma dropWhile_nonspace_shorter:
  "dropWhile isspace s \<noteq> [] \<Longrightarrow>
   length (dropWhile (\<lambda>c. \<not> isspace c) (dropWhile isspace s)) < length s"
proof -
  assume ne: "dropWhile isspace s \<noteq> []"
  then obtain c r where cr: "dropWhile isspace s = c # r"
    by (cases "dropWhile isspace s") auto
  then have "\<not> isspace c"
    using hd_dropWhile [of isspace s] ne by auto
  then have "length (dropWhile (\<lambda>c. \<not> isspace c) (c # r)) \<le> length r"
    by (simp add: length_dropWhile_le)
  moreover have "length (c # r) \<le> length s"
    using length_dropWhile_le [of isspace s] cr by simp
  ultimately show ?thesis using cr by simp
qed

text \<open>The loop \<open>while (parentSs >> parentHash)\<close>: the white-space separated tokens.\<close>

function extract_tokens :: "string \<Rightarrow> string list" where
  "extract_tokens s =
     (if dropWhile isspace s = [] then []
      else takeWhile (\<lambda>c. \<not> isspace c) (dropWhile isspace s)
           # extract_tokens (dropWhile (\<lambda>c. \<not> isspace c) (dropWhile isspace s)))"
  by pat_completeness auto
termination
  by (relation "measure length") (auto simp: dropWhile_nonspace_shorter)

declare extract_tokens.simps [simp del]

text \<open>\<open>std::set<std::string>\<close>: \<open>insert\<close> and \<open>erase\<close> on a sorted list.\<close>

definition set_insert :: "string \<Rightarrow> string list \<Rightarrow> string list" where
  "set_insert x xs = (if x \<in> set xs then xs else insort x xs)"

definition set_erase :: "string \<Rightarrow> string list \<Rightarrow> string list" where
  "set_erase x xs = removeAll x xs"

section \<open>Utils::computeHash\<close>

text \<open>
  The digest is djb2 over a 64-bit \<open>size_t\<close>, printed in decimal, followed by
  \<open>_temp_hash\<close>. A \<open>char\<close> is added after conversion to \<open>size_t\<close>; with a signed
  \<open>char\<close> (x86-64) bytes from 128 on are sign extended.
\<close>

definition char_to_size_t :: "char \<Rightarrow> 64 word" where
  "char_to_size_t c =
     (if of_char c < (128::nat) then of_nat (of_char c) else of_nat (of_char c) - 256)"

definition digit_char :: "nat \<Rightarrow> char" where
  "digit_char n = ''0123456789'' ! n"

function to_string :: "nat \<Rightarrow> string" where
  "to_string n = (if n < 10 then [digit_char n] else to_string (n div 10) @ [digit_char (n mod 10)])"
  by pat_completeness auto
termination
  by (relation "measure id") auto

declare to_string.simps [simp del]

definition computeHash :: "string \<Rightarrow> string" where
  "computeHash content =
     to_string (unat (fold (\<lambda>c h. (push_bit 5 h + h) + char_to_size_t c) content (5381 :: 64 word)))
     @ ''_temp_hash''"

section \<open>The staging area (StagingArea)\<close>

record StagingArea =
  stagedFiles :: "(path \<times> string) list"
  removedFiles :: "path list"

definition indexPath :: path where
  "indexPath = ''.minigit/index''"

text \<open>A freshly constructed \<open>StagingArea\<close>: both containers are empty.\<close>

definition new_StagingArea :: StagingArea where
  "new_StagingArea = \<lparr>stagedFiles = [], removedFiles = []\<rparr>"

definition saveIndex :: "StagingArea \<Rightarrow> fs \<Rightarrow> fs" where
  "saveIndex st fs =
     writeFile indexPath
       (concat (map (\<lambda>e. ''staged '' @ snd e @ '' '' @ fst e @ [NL]) (stagedFiles st))
        @ concat (map (\<lambda>p. ''removed '' @ p @ [NL]) (removedFiles st)))
       fs"

text \<open>
  \<open>addFile(workingDir, filepath)\<close>: the result, the staging area and the file system
  afterwards. The path is already relative to the working directory.
\<close>

definition addFile :: "StagingArea \<Rightarrow> fs \<Rightarrow> path \<Rightarrow> bool \<times> StagingArea \<times> fs" where
  "addFile st fs filepath =
     (if \<not> fs_exists fs filepath then (False, st, fs)
      else
        let blobHash = computeHash (readFile fs filepath);
            st' = st\<lparr>stagedFiles := AList.update filepath blobHash (stagedFiles st),
                     removedFiles := set_erase filepath (removedFiles st)\<rparr>
        in (True, st', saveIndex st' fs))"

definition removeFile :: "StagingArea \<Rightarrow> fs \<Rightarrow> path \<Rightarrow> bool \<times> StagingArea \<times> fs" where
  "removeFile st fs filepath =
     (let wasStaged = (map_of (stagedFiles st) filepath \<noteq> None);
          st' = st\<lparr>stagedFiles := AList.delete filepath (stagedFiles st),
                   removedFiles := set_insert filepath (removedFiles st)\<rparr>
      in (wasStaged, st', saveIndex st' fs))"

definition clear :: "StagingArea \<Rightarrow> StagingArea" where
  "clear st = st\<lparr>stagedFiles := [], removedFiles := []\<rparr>"

definition isEmpty :: "StagingArea \<Rightarrow> bool" where
  "isEmpty st = (stagedFiles st = [] \<and> removedFiles st = [])"

text \<open>One line of the index file, as the body of the loop in \<open>loadIndex\<close> treats it.\<close>

definition loadIndex_line :: "string \<Rightarrow> StagingArea \<Rightarrow> StagingArea" where
  "loadIndex_line line st =
     (if line = [] then st
      else case split_first (CHR '' '') line of
        None \<Rightarrow> st
      | Some (ty, data) \<Rightarrow>
          if ty = ''staged'' then
            (case split_first (CHR '' '') data of
               None \<Rightarrow> st
             | Some (h, filepath) \<Rightarrow>
                 st\<lparr>stagedFiles := AList.update filepath h (stagedFiles st)\<rparr>)
          else if ty = ''removed'' then
            st\<lparr>removedFiles := set_insert data (removedFiles st)\<rparr>
          else st)"

definition loadIndex :: "fs \<Rightarrow> StagingArea" where
  "loadIndex fs =
     (if \<not> fs_exists fs indexPath then new_StagingArea
      else fold loadIndex_line (getlines (readFile fs indexPath)) new_StagingArea)"


text \<open>
  \<open>hasUnstagedChanges\<close>, first loop: what it decides for one entry of the HEAD snapshot.
\<close>

definition head_entry_changed :: "StagingArea \<Rightarrow> fs \<Rightarrow> path \<times> string \<Rightarrow> bool" where
  "head_entry_changed st fs e =
     (let filepath = fst e; headHash = snd e;
          inStaged = (map_of (stagedFiles st) filepath \<noteq> None);
          stagedHash = (case map_of (stagedFiles st) filepath of None \<Rightarrow> [] | Some h \<Rightarrow> h)
      in if \<not> fs_exists fs filepath then
           filepath \<notin> set (removedFiles st) \<and> (\<not> inStaged \<or> stagedHash \<noteq> headHash)
         else
           let workingDirHash = computeHash (readFile fs filepath)
           in if inStaged then stagedHash \<noteq> workingDirHash else headHash \<noteq> workingDirHash)"

text \<open>
  Second loop: a regular file of the working directory that is reported as untracked. The
  test on \<open>.gitignore\<close> stands where the source has it, after the two prefix tests.
\<close>

definition untracked_entry :: "StagingArea \<Rightarrow> (path \<times> string) list \<Rightarrow> path \<times> string \<Rightarrow> bool" where
  "untracked_entry st headSnapshot e =
     (let relativePath = fst e
      in \<not> startsWith relativePath ''.minigit'' \<and> \<not> startsWith relativePath ''.git''
         \<and> relativePath \<noteq> ''.gitignore''
         \<and> map_of headSnapshot relativePath = None
         \<and> map_of (stagedFiles st) relativePath = None)"

definition hasUnstagedChanges :: "StagingArea \<Rightarrow> fs \<Rightarrow> (path \<times> string) list \<Rightarrow> bool" where
  "hasUnstagedChanges st fs headSnapshot =
     (list_ex (head_entry_changed st fs) headSnapshot \<or> list_ex (untracked_entry st headSnapshot) fs)"

text \<open>
  The states a staging area can be in: a new one, and whatever \<open>addFile\<close>,
  \<open>removeFile\<close> and \<open>clear\<close> make of a reachable one, on any file system.
\<close>

inductive staging_reachable :: "StagingArea \<Rightarrow> bool" where
  reach_new: "staging_reachable new_StagingArea"
| reach_add: "staging_reachable st \<Longrightarrow> staging_reachable (fst (snd (addFile st fs p)))"
| reach_remove: "staging_reachable st \<Longrightarrow> staging_reachable (fst (snd (removeFile st fs p)))"
| reach_clear: "staging_reachable st \<Longrightarrow> staging_reachable (clear st)"

definition staging_disjoint :: "StagingArea \<Rightarrow> bool" where
  "staging_disjoint st = (set (map fst (stagedFiles st)) \<inter> set (removedFiles st) = {})"

section \<open>Commits (Commit)\<close>

record Commit =
  hash :: string
  message :: string
  author :: string
  timestamp :: string
  parents :: "string list"
  snapshot :: "(path \<times> string) list"

text \<open>\<open>Commit() = default\<close>: every member empty.\<close>

definition default_Commit :: Commit where
  "default_Commit =
     \<lparr>hash = [], message = [], author = [], timestamp = [], parents = [], snapshot = []\<rparr>"

text \<open>
  \<open>Commit(message)\<close> with the default author; the second argument is what
  \<open>Utils::getCurrentTimestamp()\<close> returns at that moment.
\<close>

definition new_Commit :: "string \<Rightarrow> string \<Rightarrow> Commit" where
  "new_Commit msg now = default_Commit\<lparr>message := msg, author := ''Anonymous'', timestamp := now\<rparr>"

definition addParent :: "string \<Rightarrow> Commit \<Rightarrow> Commit" where
  "addParent parentHash c = c\<lparr>parents := parents c @ [parentHash]\<rparr>"

definition isValid :: "Commit \<Rightarrow> bool" where
  "isValid c = (hash c \<noteq> [])"

text \<open>The parents line: the digests with one space between neighbours.\<close>

fun join_parents :: "string list \<Rightarrow> string" where
  "join_parents [] = []"
| "join_parents [p] = p"
| "join_parents (p # q # ps) = p @ '' '' @ join_parents (q # ps)"

text \<open>The text \<open>saveToObjectStore\<close> builds in its string stream.\<close>

definition commitContent :: "Commit \<Rightarrow> string" where
  "commitContent c =
     message c @ [NL] @ author c @ [NL] @ timestamp c @ [NL] @ join_parents (parents c) @ [NL]
     @ concat (map (\<lambda>e. fst e @ '' '' @ snd e @ [NL]) (snapshot c))"

text \<open>
  \<open>saveToObjectStore\<close>: the digest is computed from the content only when the commit has
  none yet; the object is written under the commit's digest.
\<close>

definition saveToObjectStore :: "Commit \<Rightarrow> path \<Rightarrow> fs \<Rightarrow> Commit \<times> fs" where
  "saveToObjectStore c objectsPath fs =
     (let c' = (if hash c = [] then c\<lparr>hash := computeHash (commitContent c)\<rparr> else c)
      in (c', writeFile (pjoin objectsPath (hash c')) (commitContent c) fs))"

definition parse_snapshot_line :: "string \<Rightarrow> (path \<times> string) list \<Rightarrow> (path \<times> string) list" where
  "parse_snapshot_line line snap =
     (case split_first (CHR '' '') line of
        None \<Rightarrow> snap
      | Some (filepath, blobHash) \<Rightarrow> AList.update filepath blobHash snap)"

definition loadFromObjectStore :: "fs \<Rightarrow> path \<Rightarrow> string \<Rightarrow> Commit" where
  "loadFromObjectStore fs objectsPath commitHash =
     (let content = readFile fs (pjoin objectsPath commitHash)
      in if content = [] then default_Commit
         else
           let (l1, r1) = getline content;
               (l2, r2) = getline r1;
               (l3, r3) = getline r2;
               (l4, r4) = getline r3
           in \<lparr>hash = commitHash, message = l1, author = l2, timestamp = l3,
               parents = (if l4 \<noteq> [] then extract_tokens l4 else []),
               snapshot = fold parse_snapshot_line (getlines r4) []\<rparr>)"

definition existsInObjectStore :: "fs \<Rightarrow> path \<Rightarrow> string \<Rightarrow> bool" where
  "existsInObjectStore fs objectsPath commitHash = fs_exists fs (pjoin objectsPath commitHash)"

text \<open>
  \<open>createFromStagingArea\<close>. The staging path must exist; a
  \<open>recursive_directory_iterator\<close> over a path that is a regular file throws
  \<open>filesystem_error\<close>, which the function catches to return \<open>false\<close> (the snapshot
  was cleared before). Over a directory, every regular file beneath it is hashed, stored as
  a blob and recorded under its path relative to the staging path.
\<close>

definition createFromStagingArea :: "Commit \<Rightarrow> fs \<Rightarrow> path \<Rightarrow> path \<Rightarrow> bool \<times> Commit \<times> fs" where
  "createFromStagingArea c fs stagingPath objectsPath =
     (if \<not> fs_exists fs stagingPath then (False, c, fs)
      else if is_regular_file fs stagingPath then (False, c\<lparr>snapshot := []\<rparr>, fs)
      else
        let r = fold (\<lambda>e acc.
                  let relativePath = drop (length stagingPath + 1) (fst e);
                      fileContent = readFile (snd acc) (fst e);
                      blobHash = computeHash fileContent
                  in (AList.update relativePath blobHash (fst acc),
                      writeFile (pjoin objectsPath blobHash) fileContent (snd acc)))
                (filter (\<lambda>e. prefix (stagingPath @ ''/'') (fst e)) fs) ([], fs)
        in (True, c\<lparr>snapshot := fst r\<rparr>, snd r))"

text \<open>
  \<open>restoreToWorkingDirectory\<close>: the first loop removes the regular files whose relative
  path does not start with \<open>.minigit\<close> or \<open>.git\<close>, the second removes every top-level
  entry not named \<open>.minigit\<close> or \<open>.git\<close>; then each snapshot entry is written from its blob.
\<close>

definition top_component :: "path \<Rightarrow> string" where
  "top_component p = takeWhile (\<lambda>c. c \<noteq> CHR ''/'') p"

definition clear_working_directory :: "fs \<Rightarrow> fs" where
  "clear_working_directory fs =
     filter (\<lambda>e. top_component (fst e) = ''.minigit'' \<or> top_component (fst e) = ''.git'')
       (filter (\<lambda>e. startsWith (fst e) ''.minigit'' \<or> startsWith (fst e) ''.git'') fs)"

definition restoreToWorkingDirectory :: "Commit \<Rightarrow> path \<Rightarrow> fs \<Rightarrow> fs" where
  "restoreToWorkingDirectory c objectsPath fs =
     fold (\<lambda>e fs'. writeFile (fst e) (readFile fs' (pjoin objectsPath (snd e))) fs')
       (snapshot c) (clear_working_directory fs)"

section \<open>Ancestry (Commit::isAncestor, Commit::findLCA)\<close>

text \<open>
  Both functions are breadth-first walks written as \<open>while\<close> loops over a queue. The
  model keeps them as loops (\<open>while_option\<close>, whose value is \<open>None\<close> for a loop that
  never ends), with the loop variables as the state. A \<open>return\<close> from inside a loop is a
  component of the state that ends the loop.
\<close>

type_synonym anc_state = "string list \<times> string set \<times> bool"

text \<open>The \<open>for\<close> loop over the parents of the current commit in \<open>isAncestor\<close>.\<close>

fun isAncestor_parents :: "string \<Rightarrow> string list \<Rightarrow> anc_state \<Rightarrow> anc_state" where
  "isAncestor_parents a [] s = s"
| "isAncestor_parents a (p # ps) (q, visited, found) =
     (if p = a then (q, visited, True)
      else if p \<notin> visited then isAncestor_parents a ps (q @ [p], insert p visited, found)
      else isAncestor_parents a ps (q, visited, found))"

definition isAncestor_step :: "fs \<Rightarrow> path \<Rightarrow> string \<Rightarrow> anc_state \<Rightarrow> anc_state" where
  "isAncestor_step fs objectsPath a s =
     (case fst s of
        [] \<Rightarrow> s
      | currentHash # q \<Rightarrow>
          let currentCommit = loadFromObjectStore fs objectsPath currentHash
          in if \<not> isValid currentCommit then (q, snd s)
             else isAncestor_parents a (parents currentCommit) (q, snd s))"

definition isAncestor_running :: "anc_state \<Rightarrow> bool" where
  "isAncestor_running s = (fst s \<noteq> [] \<and> \<not> snd (snd s))"

definition isAncestor :: "fs \<Rightarrow> path \<Rightarrow> string \<Rightarrow> string \<Rightarrow> bool option" where
  "isAncestor fs objectsPath ancestorCommitHash descendantCommitHash =
     (if ancestorCommitHash = [] \<or> descendantCommitHash = [] then Some False
      else if ancestorCommitHash = descendantCommitHash then Some True
      else map_option (\<lambda>s. snd (snd s))
             (while_option isAncestor_running (isAncestor_step fs objectsPath ancestorCommitHash)
                ([descendantCommitHash], {descendantCommitHash}, False)))"

text \<open>
  \<open>findLCA\<close>, first loop: the distances from \<open>commit1\<close>. \<open>dist1[currentHash]\<close> reads an
  entry that is always there; were it missing, \<open>operator[]\<close> would give 0.
\<close>

type_synonym dist_state = "string list \<times> (string \<rightharpoonup> int)"

fun findLCA_parents1 :: "int \<Rightarrow> string list \<Rightarrow> dist_state \<Rightarrow> dist_state" where
  "findLCA_parents1 d [] s = s"
| "findLCA_parents1 d (p # ps) (q, dist1) =
     (if dist1 p = None then findLCA_parents1 d ps (q @ [p], dist1(p \<mapsto> d + 1))
      else findLCA_parents1 d ps (q, dist1))"

definition findLCA_step1 :: "fs \<Rightarrow> path \<Rightarrow> dist_state \<Rightarrow> dist_state" where
  "findLCA_step1 fs objectsPath s =
     (case fst s of
        [] \<Rightarrow> s
      | currentHash # q \<Rightarrow>
          let currentCommit = loadFromObjectStore fs objectsPath currentHash
          in if isValid currentCommit then
               findLCA_parents1 (case snd s currentHash of None \<Rightarrow> 0 | Some d \<Rightarrow> d)
                 (parents currentCommit) (q, snd s)
             else (q, snd s))"

text \<open>Second loop: the walk from \<open>commit2\<close>, which returns at the first commit in \<open>dist1\<close>.\<close>

type_synonym lca_state = "string list \<times> string set \<times> string option"

fun findLCA_parents2 :: "string list \<Rightarrow> string list \<times> string set \<Rightarrow> string list \<times> string set" where
  "findLCA_parents2 [] s = s"
| "findLCA_parents2 (p # ps) (q, visited2) =
     (if p \<notin> visited2 then findLCA_parents2 ps (q @ [p], insert p visited2)
      else findLCA_parents2 ps (q, visited2))"

definition findLCA_step2 :: "fs \<Rightarrow> path \<Rightarrow> (string \<rightharpoonup> int) \<Rightarrow> lca_state \<Rightarrow> lca_state" where
  "findLCA_step2 fs objectsPath dist1 s =
     (case fst s of
        [] \<Rightarrow> s
      | currentHash # q \<Rightarrow>
          if dist1 currentHash \<noteq> None then (q, fst (snd s), Some currentHash)
          else
            let currentCommit = loadFromObjectStore fs objectsPath currentHash
            in if isValid currentCommit then
                 (let r = findLCA_parents2 (parents currentCommit) (q, fst (snd s))
                  in (fst r, snd r, None))
               else (q, fst (snd s), None))"

definition findLCA_running2 :: "lca_state \<Rightarrow> bool" where
  "findLCA_running2 s = (fst s \<noteq> [] \<and> snd (snd s) = None)"

text \<open>The first loop as a whole: the distance map it ends with.\<close>

definition findLCA_dist1 :: "fs \<Rightarrow> path \<Rightarrow> string \<Rightarrow> (string \<rightharpoonup> int) option" where
  "findLCA_dist1 fs objectsPath commit1Hash =
     map_option snd
       (while_option (\<lambda>s. fst s \<noteq> []) (findLCA_step1 fs objectsPath)
          ([commit1Hash], [commit1Hash \<mapsto> 0]))"

definition findLCA :: "fs \<Rightarrow> path \<Rightarrow> string \<Rightarrow> string \<Rightarrow> string option" where
  "findLCA fs objectsPath commit1Hash commit2Hash =
     (if commit1Hash = [] \<or> commit2Hash = [] then Some []
      else if commit1Hash = commit2Hash then Some commit1Hash
      else
        case findLCA_dist1 fs objectsPath commit1Hash of
          None \<Rightarrow> None
        | Some dist1 \<Rightarrow>
            (case while_option findLCA_running2 (findLCA_step2 fs objectsPath dist1)
                    ([commit2Hash], {commit2Hash}, None) of
               None \<Rightarrow> None
             | Some s2 \<Rightarrow> Some (case snd (snd s2) of None \<Rightarrow> [] | Some h \<Rightarrow> h)))"


subsection \<open>The walks with the exception of \<open>Utils::readFile\<close>\<close>

text \<open>
  \<open>Utils::readFile\<close> opens its path with \<open>std::ifstream\<close> and reads the stream to its
  end through \<open>std::istreambuf_iterator\<close>. A path that names a directory opens, and the
  first read of its buffer throws \<open>std::ios_base::failure\<close>. \<open>loadFromObjectStore\<close>,
  \<open>isAncestor\<close>, \<open>findLCA\<close> and their callers up to \<open>main\<close> have no handler, so the
  exception ends the walk, and the program, without a value. \<open>readFile\<close> above is the
  string that \<open>Utils::readFile\<close> returns when it returns; \<open>readFile_throws\<close> says when it
  does not. The walks are repeated here with the exception as an outcome of every
  load: a round of a loop gives the next state or the exception, and a loop ends when
  its test fails or when a round has thrown.
\<close>

datatype exn = IosFailure

definition readFile_throws :: "fs \<Rightarrow> path \<Rightarrow> bool" where
  "readFile_throws fs p = (\<not> is_regular_file fs p \<and> is_directory fs p)"

definition loadFromObjectStore_exn :: "fs \<Rightarrow> path \<Rightarrow> string \<Rightarrow> exn + Commit" where
  "loadFromObjectStore_exn fs objectsPath commitHash =
     (if readFile_throws fs (pjoin objectsPath commitHash) then Inl IosFailure
      else Inr (loadFromObjectStore fs objectsPath commitHash))"

definition exn_running :: "('s \<Rightarrow> bool) \<Rightarrow> exn + 's \<Rightarrow> bool" where
  "exn_running b r = (case r of Inl e \<Rightarrow> False | Inr s \<Rightarrow> b s)"

definition exn_step :: "('s \<Rightarrow> exn + 's) \<Rightarrow> exn + 's \<Rightarrow> exn + 's" where
  "exn_step c r = (case r of Inl e \<Rightarrow> Inl e | Inr s \<Rightarrow> c s)"

definition isAncestor_step_exn :: "fs \<Rightarrow> path \<Rightarrow> string \<Rightarrow> anc_state \<Rightarrow> exn + anc_state" where
  "isAncestor_step_exn fs objectsPath a s =
     (case fst s of
        [] \<Rightarrow> Inr s
      | currentHash # q \<Rightarrow>
          (case loadFromObjectStore_exn fs objectsPath currentHash of
             Inl e \<Rightarrow> Inl e
           | Inr currentCommit \<Rightarrow>
               Inr (if \<not> isValid currentCommit then (q, snd s)
                    else isAncestor_parents a (parents currentCommit) (q, snd s))))"

definition isAncestor_exn :: "fs \<Rightarrow> path \<Rightarrow> string \<Rightarrow> string \<Rightarrow> (exn + bool) option" where
  "isAncestor_exn fs objectsPath ancestorCommitHash descendantCommitHash =
     (if ancestorCommitHash = [] \<or> descendantCommitHash = [] then Some (Inr False)
      else if ancestorCommitHash = descendantCommitHash then Some (Inr True)
      else map_option (map_sum id (\<lambda>s. snd (snd s)))
             (while_option (exn_running isAncestor_running)
                (exn_step (isAncestor_step_exn fs objectsPath ancestorCommitHash))
                (Inr ([descendantCommitHash], {descendantCommitHash}, False))))"

definition findLCA_step1_exn :: "fs \<Rightarrow> path \<Rightarrow> dist_state \<Rightarrow> exn + dist_state" where
  "findLCA_step1_exn fs objectsPath s =
     (case fst s of
        [] \<Rightarrow> Inr s
      | currentHash # q \<Rightarrow>
          (case loadFromObjectStore_exn fs objectsPath currentHash of
             Inl e \<Rightarrow> Inl e
           | Inr currentCommit \<Rightarrow>
               Inr (if isValid currentCommit then
                      findLCA_parents1 (case snd s currentHash of None \<Rightarrow> 0 | Some d \<Rightarrow> d)
                        (parents currentCommit) (q, snd s)
                    else (q, snd s))))"

text \<open>In the second loop the test against \<open>dist1\<close> comes before the load.\<close>

definition findLCA_step2_exn :: "fs \<Rightarrow> path \<Rightarrow> (string \<rightharpoonup> int) \<Rightarrow> lca_state \<Rightarrow> exn + lca_state" where
  "findLCA_step2_exn fs objectsPath dist1 s =
     (case fst s of
        [] \<Rightarrow> Inr s
      | currentHash # q \<Rightarrow>
          if dist1 currentHash \<noteq> None then Inr (q, fst (snd s), Some currentHash)
          else
            (case loadFromObjectStore_exn fs objectsPath currentHash of
               Inl e \<Rightarrow> Inl e
             | Inr currentCommit \<Rightarrow>
                 Inr (if isValid currentCommit then
                        (let r = findLCA_parents2 (parents currentCommit) (q, fst (snd s))
                         in (fst r, snd r, None))
                      else (q, fst (snd s), None))))"

definition findLCA_dist1_exn :: "fs \<Rightarrow> path \<Rightarrow> string \<Rightarrow> (exn + (string \<rightharpoonup> int)) option" where
  "findLCA_dist1_exn fs objectsPath commit1Hash =
     map_option (map_sum id snd)
       (while_option (exn_running (\<lambda>s. fst s \<noteq> [])) (exn_step (findLCA_step1_exn fs objectsPath))
          (Inr ([commit1Hash], [commit1Hash \<mapsto> 0])))"

definition findLCA_exn :: "fs \<Rightarrow> path \<Rightarrow> string \<Rightarrow> string \<Rightarrow> (exn + string) option" where
  "findLCA_exn fs objectsPath commit1Hash commit2Hash =
     (if commit1Hash = [] \<or> commit2Hash = [] then Some (Inr [])
      else if commit1Hash = commit2Hash then Some (Inr commit1Hash)
      else
        case findLCA_dist1_exn fs objectsPath commit1Hash of
          None \<Rightarrow> None
        | Some (Inl e) \<Rightarrow> Some (Inl e)
        | Some (Inr dist1) \<Rightarrow>
            (case while_option (exn_running findLCA_running2)
                    (exn_step (findLCA_step2_exn fs objectsPath dist1))
                    (Inr ([commit2Hash], {commit2Hash}, None)) of
               None \<Rightarrow> None
             | Some (Inl e) \<Rightarrow> Some (Inl e)
             | Some (Inr s2) \<Rightarrow> Some (Inr (case snd (snd s2) of None \<Rightarrow> [] | Some h \<Rightarrow> h))))"
section \<open>The repository (Repository)\<close>

definition minigitDir :: path where
  "minigitDir = ''.minigit''"

definition objectsDir :: path where
  "objectsDir = pjoin minigitDir ''objects''"

definition refsDir :: path where
  "refsDir = pjoin (pjoin minigitDir ''refs'') ''heads''"

definition headFile :: path where
  "headFile = pjoin minigitDir ''HEAD''"

text \<open>
  The source reports a failure by a message on \<open>std::cerr\<close> and the result \<open>false\<close>;
  the model names each such exit after the error kind of the specification it stands for.
  \<open>OutOfRange\<close> is the exception \<open>std::out_of_range\<close>, which nothing catches.
  No exit of the source stands for \<open>CannotMergeDetached\<close>.
\<close>

datatype error =
    NotARepository
  | NothingToCommit
  | SnapshotError
  | WouldOverwrite
  | NoCommits string
  | RefNotFound string
  | CorruptCommit
  | NoCommonAncestor
  | MergeConflict "path list"
  | OutOfRange
  | CannotMergeDetached

datatype success =
    Committed string
  | CheckedOut
  | AlreadyUpToDate
  | FastForward
  | MergeCommitted string

type_synonym outcome = "(error + success) \<times> fs"

definition writeBranchRef :: "string \<Rightarrow> string \<Rightarrow> fs \<Rightarrow> fs" where
  "writeBranchRef branchName commitHash fs = writeFile (pjoin refsDir branchName) commitHash fs"

text \<open>
  The commit HEAD stands for, as \<open>checkout\<close> and \<open>merge\<close> compute it before their safety
  check: through the branch file named in HEAD, or HEAD's content itself when detached.
\<close>

definition currentHeadCommitHash :: "fs \<Rightarrow> string" where
  "currentHeadCommitHash fs =
     (let headRefContent = readFile fs headFile
      in if startsWith headRefContent ''ref: '' then
           (let currentBranchPath = pjoin minigitDir (drop 5 headRefContent)
            in if fs_exists fs currentBranchPath then readFile fs currentBranchPath else [])
         else headRefContent)"

definition headCommitObj :: "fs \<Rightarrow> Commit" where
  "headCommitObj fs =
     (if currentHeadCommitHash fs \<noteq> [] then loadFromObjectStore fs objectsDir (currentHeadCommitHash fs)
      else default_Commit)"

text \<open>\<open>Repository::commit\<close>; \<open>now\<close> is the clock's reading.\<close>

definition commit :: "fs \<Rightarrow> string \<Rightarrow> string \<Rightarrow> outcome" where
  "commit fs now msg =
     (if \<not> fs_exists fs minigitDir then (Inl NotARepository, fs)
      else
        let st = loadIndex fs
        in if isEmpty st then (Inl NothingToCommit, fs)
           else
             let newCommit = new_Commit msg now;
                 headRefContent = readFile fs headFile;
                 attached = startsWith headRefContent ''ref: '';
                 currentBranch = drop 5 headRefContent;
                 branchPath = pjoin minigitDir currentBranch;
                 withParent =
                   (if attached then
                      (if fs_exists fs branchPath \<and> readFile fs branchPath \<noteq> []
                       then addParent (readFile fs branchPath) newCommit else newCommit)
                    else
                      (if headRefContent \<noteq> [] then addParent headRefContent newCommit
                       else newCommit));
                 created = createFromStagingArea withParent fs indexPath objectsDir
             in if \<not> fst created then (Inl SnapshotError, snd (snd created))
                else
                  let c1 = fst (snd created);
                      commitHash = computeHash (message c1 @ author c1 @ timestamp c1);
                      saved = saveToObjectStore (c1\<lparr>hash := commitHash\<rparr>) objectsDir (snd (snd created));
                      fs3 = (if attached then writeFile (pjoin minigitDir currentBranch) commitHash (snd saved)
                             else writeFile headFile commitHash (snd saved));
                      fs4 = saveIndex (clear st) fs3
                  in (Inr (Committed commitHash), fs4))"

text \<open>\<open>Repository::checkout\<close>.\<close>

definition checkout :: "fs \<Rightarrow> string \<Rightarrow> outcome" where
  "checkout fs ref =
     (if \<not> fs_exists fs minigitDir then (Inl NotARepository, fs)
      else
        let st = loadIndex fs
        in if hasUnstagedChanges st fs (snapshot (headCommitObj fs)) then (Inl WouldOverwrite, fs)
           else
             let targetBranchPath = pjoin refsDir ref;
                 resolved =
                   (if fs_exists fs targetBranchPath then
                      (if readFile fs targetBranchPath = [] then Inl (NoCommits ref)
                       else Inr (readFile fs targetBranchPath,
                                 writeFile headFile (''ref: refs/heads/'' @ ref) fs))
                    else if existsInObjectStore fs objectsDir ref then
                      Inr (ref, writeFile headFile ref fs)
                    else Inl (RefNotFound ref))
             in case resolved of
                  Inl e \<Rightarrow> (Inl e, fs)
                | Inr (targetCommitHash, fs1) \<Rightarrow>
                    let targetCommit = loadFromObjectStore fs1 objectsDir targetCommitHash
                    in if \<not> isValid targetCommit then (Inl CorruptCommit, fs1)
                       else
                         let fs2 = restoreToWorkingDirectory targetCommit objectsDir fs1
                         in (Inr CheckedOut, saveIndex (clear st) fs2))"

text \<open>
  \<open>Repository::merge\<close>, the loop over \<open>allFiles\<close>: the merged snapshot, the conflicting
  paths and the file system after one path. An absent path has the empty digest.
\<close>

type_synonym merge_state = "(path \<times> string) list \<times> path list \<times> fs"

definition merge_file ::
  "(path \<times> string) list \<Rightarrow> (path \<times> string) list \<Rightarrow> (path \<times> string) list \<Rightarrow> string
   \<Rightarrow> path \<Rightarrow> merge_state \<Rightarrow> merge_state" where
  "merge_file lcaSnapshot currentSnapshot otherSnapshot branchToMergeName filepath s =
     (let mergedSnapshot = fst s; conflictFiles = fst (snd s); fs = snd (snd s);
          inCurrent = (map_of currentSnapshot filepath \<noteq> None);
          inOther = (map_of otherSnapshot filepath \<noteq> None);
          lcaHash_file = (case map_of lcaSnapshot filepath of None \<Rightarrow> [] | Some h \<Rightarrow> h);
          currentHash_file = (case map_of currentSnapshot filepath of None \<Rightarrow> [] | Some h \<Rightarrow> h);
          otherHash_file = (case map_of otherSnapshot filepath of None \<Rightarrow> [] | Some h \<Rightarrow> h)
      in if currentHash_file = otherHash_file then
           (AList.update filepath currentHash_file mergedSnapshot, conflictFiles, fs)
         else if lcaHash_file = currentHash_file then
           (if inOther then (AList.update filepath otherHash_file mergedSnapshot, conflictFiles, fs)
            else (AList.delete filepath mergedSnapshot, conflictFiles, fs))
         else if lcaHash_file = otherHash_file then
           (if inCurrent then (AList.update filepath currentHash_file mergedSnapshot, conflictFiles, fs)
            else (AList.delete filepath mergedSnapshot, conflictFiles, fs))
         else
           (let currentContent =
                  (if currentHash_file = [] then [] else readFile fs (pjoin objectsDir currentHash_file));
                otherContent =
                  (if otherHash_file = [] then [] else readFile fs (pjoin objectsDir otherHash_file));
                conflictContent =
                  ''<<<<<<< HEAD'' @ [NL] @ currentContent @ [NL] @ ''======='' @ [NL]
                  @ otherContent @ [NL] @ ''>>>>>>> '' @ branchToMergeName @ [NL]
            in (mergedSnapshot, conflictFiles @ [filepath], writeFile filepath conflictContent fs)))"

text \<open>\<open>allFiles\<close>: the paths of the three snapshots in a \<open>std::set\<close>.\<close>

definition allFiles ::
  "(path \<times> string) list \<Rightarrow> (path \<times> string) list \<Rightarrow> (path \<times> string) list \<Rightarrow> path list" where
  "allFiles lcaSnapshot currentSnapshot otherSnapshot =
     fold set_insert (map fst otherSnapshot)
       (fold set_insert (map fst currentSnapshot) (fold set_insert (map fst lcaSnapshot) []))"

text \<open>
  \<open>Repository::merge\<close>. The branch name is HEAD's content from offset 16 on, whatever HEAD
  holds, and the current commit is read from the file of that name directly below
  \<open>.minigit\<close>. The test \<open>!currentCommit.isValid() || !otherCommit.isValid()\<close> is written
  as the negation of the conjunction.
\<close>

definition merge :: "fs \<Rightarrow> string \<Rightarrow> string \<Rightarrow> outcome option" where
  "merge fs now branchToMergeName =
     (if \<not> fs_exists fs minigitDir then Some (Inl NotARepository, fs)
      else
        let st = loadIndex fs;
            headRefContent = readFile fs headFile
        in if hasUnstagedChanges st fs (snapshot (headCommitObj fs)) then Some (Inl WouldOverwrite, fs)
           else
             (case substr_from headRefContent 16 of
               None \<Rightarrow> Some (Inl OutOfRange, fs)
             | Some currentBranch \<Rightarrow>
                 let currentCommitHash = readFile fs (pjoin minigitDir currentBranch);
                     otherCommitHash = readFile fs (pjoin refsDir branchToMergeName)
                 in if currentCommitHash = [] then Some (Inl (NoCommits currentBranch), fs)
                    else if otherCommitHash = [] then Some (Inl (NoCommits branchToMergeName), fs)
                    else if currentCommitHash = otherCommitHash then Some (Inr AlreadyUpToDate, fs)
                    else
                      let currentCommit = loadFromObjectStore fs objectsDir currentCommitHash;
                          otherCommit = loadFromObjectStore fs objectsDir otherCommitHash
                      in if \<not> (isValid currentCommit \<and> isValid otherCommit)
                         then Some (Inl CorruptCommit, fs)
                         else
                           (case isAncestor fs objectsDir otherCommitHash currentCommitHash of
                             None \<Rightarrow> None
                           | Some True \<Rightarrow> Some (Inr AlreadyUpToDate, fs)
                           | Some False \<Rightarrow>
                           (case isAncestor fs objectsDir currentCommitHash otherCommitHash of
                             None \<Rightarrow> None
                           | Some True \<Rightarrow>
                               let fs1 = writeBranchRef currentBranch otherCommitHash fs;
                                   fs2 = restoreToWorkingDirectory otherCommit objectsDir fs1
                               in Some (Inr FastForward, saveIndex (clear st) fs2)
                           | Some False \<Rightarrow>
                           (case findLCA fs objectsDir currentCommitHash otherCommitHash of
                             None \<Rightarrow> None
                           | Some lcaHash \<Rightarrow>
                               if lcaHash = [] then Some (Inl NoCommonAncestor, fs)
                               else
                                 let lcaCommit = loadFromObjectStore fs objectsDir lcaHash
                                 in if \<not> isValid lcaCommit then Some (Inl CorruptCommit, fs)
                                    else
                                      let merged =
                                            fold (merge_file (snapshot lcaCommit) (snapshot currentCommit)
                                                    (snapshot otherCommit) branchToMergeName)
                                              (allFiles (snapshot lcaCommit) (snapshot currentCommit)
                                                 (snapshot otherCommit))
                                              (snapshot currentCommit, [], fs);
                                          mergedSnapshot = fst merged;
                                          conflictFiles = fst (snd merged);
                                          fs1 = snd (snd merged)
                                      in if conflictFiles \<noteq> [] then Some (Inl (MergeConflict conflictFiles), fs1)
                                         else
                                           let mergeMessage = ''Merge branch '' @ [CHR 0x27] @ branchToMergeName
                                                 @ [CHR 0x27] @ '' into '' @ currentBranch;
                                               mergeCommit =
                                                 (addParent otherCommitHash
                                                    (addParent currentCommitHash (new_Commit mergeMessage now)))
                                                 \<lparr>snapshot := mergedSnapshot\<rparr>;
                                               mergeCommitHash =
                                                 computeHash (message mergeCommit @ author mergeCommit
                                                              @ timestamp mergeCommit);
                                               saved = saveToObjectStore (mergeCommit\<lparr>hash := mergeCommitHash\<rparr>)
                                                         objectsDir fs1;
                                               fs2 = writeBranchRef currentBranch mergeCommitHash (snd saved);
                                               fs3 = restoreToWorkingDirectory (fst saved) objectsDir fs2;
                                               staged = fold (\<lambda>e acc. snd (addFile (fst acc) (snd acc) (fst e)))
                                                          mergedSnapshot (clear st, fs3)
                                           in Some (Inr (MergeCommitted mergeCommitHash),
                                                    saveIndex (fst staged) (snd staged)))))))"

section \<open>Predicates of the statements\<close>

text \<open>
  A commit that the line format can carry: no header holds a newline, every parent is a
  non-empty digest free of white space, the snapshot's paths are distinct and hold neither
  a space nor a newline, and no blob digest holds a newline.
\<close>

definition well_formed_commit :: "Commit \<Rightarrow> bool" where
  "well_formed_commit c =
     (NL \<notin> set (message c) \<and> NL \<notin> set (author c) \<and> NL \<notin> set (timestamp c)
      \<and> list_all (\<lambda>p. p \<noteq> [] \<and> list_all (\<lambda>x. \<not> isspace x) p) (parents c)
      \<and> distinct (map fst (snapshot c))
      \<and> list_all (\<lambda>e. CHR '' '' \<notin> set (fst e) \<and> NL \<notin> set (fst e) \<and> NL \<notin> set (snd e))
            (snapshot c))"

definition token :: "string \<Rightarrow> bool" where
  "token p = (p \<noteq> [] \<and> list_all (\<lambda>c. \<not> isspace c) p)"

text \<open>
  The shape of one round of a breadth-first walk, on the queue and the set of commits
  seen: the head of the queue leaves, and commits not seen before, each once, join the
  queue and the set. \<open>U\<close> bounds the commits that can join.
\<close>

definition bfs_succ :: "string set \<Rightarrow> string list \<times> string set \<Rightarrow> string list \<times> string set \<Rightarrow> bool" where
  "bfs_succ U s t =
     (\<exists>cur rest new. fst s = cur # rest \<and> fst t = rest @ new \<and> snd t = snd s \<union> set new
        \<and> distinct new \<and> set new \<inter> snd s = {} \<and> set new \<subseteq> U)"

definition bfs_measure :: "string set \<Rightarrow> string list \<times> string set \<Rightarrow> nat" where
  "bfs_measure U s = 2 * card (U - snd s) + length (fst s)"

text \<open>Every digest that some object of the store names as a parent.\<close>

definition store_universe :: "fs \<Rightarrow> path \<Rightarrow> string set" where
  "store_universe fs objectsPath = (\<Union>h. set (parents (loadFromObjectStore fs objectsPath h)))"

text \<open>
  A loop with test \<open>b\<close> and body \<open>step\<close> started in \<open>s\<close> is still running after \<open>j\<close>
  rounds; the commit it takes from its queue in round \<open>k\<close>.
\<close>

fun runs_for :: "('s \<Rightarrow> bool) \<Rightarrow> ('s \<Rightarrow> 's) \<Rightarrow> 's \<Rightarrow> nat \<Rightarrow> bool" where
  "runs_for b step s 0 = b s"
| "runs_for b step s (Suc j) = (b s \<and> runs_for b step (step s) j)"

definition dequeued :: "('s \<Rightarrow> 's) \<Rightarrow> ('s \<Rightarrow> string list) \<Rightarrow> 's \<Rightarrow> nat \<Rightarrow> string" where
  "dequeued step queue s k = hd (queue ((step ^^ k) s))"

text \<open>
  The parent relation of the store, as the walks read it (an object that does not load
  has no parents), and the commits reachable from a commit, itself included.
\<close>

definition parent_edges :: "fs \<Rightarrow> path \<Rightarrow> (string \<times> string) set" where
  "parent_edges fs objectsPath =
     {(c, p). isValid (loadFromObjectStore fs objectsPath c)
              \<and> p \<in> set (parents (loadFromObjectStore fs objectsPath c))}"

definition ancestors :: "fs \<Rightarrow> path \<Rightarrow> string \<Rightarrow> string set" where
  "ancestors fs objectsPath x = {h. (x, h) \<in> (parent_edges fs objectsPath)\<^sup>*}"



text \<open>
  The invariant of the loop of \<open>isAncestor\<close>: what is seen descends from the start, and
  either the ancestor was found among the parents of a commit seen, or it is not seen
  and every commit that has left the queue has all its parents seen.
\<close>

definition anc_inv :: "fs \<Rightarrow> path \<Rightarrow> string \<Rightarrow> string \<Rightarrow> anc_state \<Rightarrow> bool" where
  "anc_inv fs op a d s =
     (d \<in> fst (snd s) \<and> set (fst s) \<subseteq> fst (snd s) \<and> fst (snd s) \<subseteq> ancestors fs op d
      \<and> (if snd (snd s) then a \<in> ancestors fs op d
          else a \<notin> fst (snd s)
               \<and> (\<forall>c\<in>fst (snd s) - set (fst s).
                     \<forall>p. (c, p) \<in> parent_edges fs op \<longrightarrow> p \<in> fst (snd s))))"

section \<open>Example repositories\<close>

text \<open>
  Concrete file systems on which the operations are evaluated below. Digests are those
  \<open>computeHash\<close> gives: a blob is named by the digest of its content, a commit by the
  digest of its message, author and time stamp.
\<close>

text \<open>After \<open>init\<close> and \<open>add a.txt\<close>, with \<open>a.txt\<close> holding \<open>hello\<close> and a newline.\<close>

definition repo_staged :: fs where
  "repo_staged =
     [(''.minigit/HEAD'', ''ref: refs/heads/master''),
      (''.minigit/index'', ''staged 6953583002563_temp_hash a.txt'' @ [NL]),
      (''.minigit/objects/6953583002563_temp_hash'', ''hello'' @ [NL]),
      (''.gitignore'', ''.minigit/'' @ [NL]),
      (''a.txt'', ''hello'' @ [NL])]"

text \<open>Branch \<open>master\<close> at the first commit, \<open>feature\<close> one commit ahead, HEAD on \<open>master\<close>, and \<open>a.txt\<close> edited in the working tree without staging.\<close>

definition repo_dirty :: fs where
  "repo_dirty =
     [(''.minigit/HEAD'', ''ref: refs/heads/master''),
      (''.minigit/index'', []),
      (''.minigit/refs/heads/master'', ''16644585329497264047_temp_hash''),
      (''.minigit/refs/heads/feature'', ''12843856236805605873_temp_hash''),
      (''.minigit/objects/6953583002563_temp_hash'', ''hello'' @ [NL]),
      (''.minigit/objects/16644585329497264047_temp_hash'', ''first'' @ [NL] @ ''Anonymous'' @ [NL] @ ''2024-01-01 10:00:00'' @ [NL] @ [NL] @ ''a.txt 6953583002563_temp_hash'' @ [NL]),
      (''.minigit/objects/15212097774910285909_temp_hash'', ''hello'' @ [NL] @ ''world'' @ [NL]),
      (''.minigit/objects/12843856236805605873_temp_hash'', ''on feature'' @ [NL] @ ''Anonymous'' @ [NL] @ ''2024-01-02 10:00:00'' @ [NL] @ ''16644585329497264047_temp_hash'' @ [NL] @ ''a.txt 15212097774910285909_temp_hash'' @ [NL]),
      (''a.txt'', ''edited'' @ [NL])]"

text \<open>The same history with a clean working tree: \<open>master\<close> is a strict ancestor of \<open>feature\<close>.\<close>

definition repo_behind :: fs where
  "repo_behind =
     [(''.minigit/HEAD'', ''ref: refs/heads/master''),
      (''.minigit/index'', []),
      (''.minigit/refs/heads/master'', ''16644585329497264047_temp_hash''),
      (''.minigit/refs/heads/feature'', ''12843856236805605873_temp_hash''),
      (''.minigit/objects/6953583002563_temp_hash'', ''hello'' @ [NL]),
      (''.minigit/objects/16644585329497264047_temp_hash'', ''first'' @ [NL] @ ''Anonymous'' @ [NL] @ ''2024-01-01 10:00:00'' @ [NL] @ [NL] @ ''a.txt 6953583002563_temp_hash'' @ [NL]),
      (''.minigit/objects/15212097774910285909_temp_hash'', ''hello'' @ [NL] @ ''world'' @ [NL]),
      (''.minigit/objects/12843856236805605873_temp_hash'', ''on feature'' @ [NL] @ ''Anonymous'' @ [NL] @ ''2024-01-02 10:00:00'' @ [NL] @ ''16644585329497264047_temp_hash'' @ [NL] @ ''a.txt 15212097774910285909_temp_hash'' @ [NL]),
      (''a.txt'', ''hello'' @ [NL])]"


text \<open>Two branches that added different files since the first commit; HEAD on \<open>master\<close>, clean working tree, and \<open>.minigit/master\<close> as above.\<close>

definition repo_diverged :: fs where
  "repo_diverged =
     [(''.minigit/HEAD'', ''ref: refs/heads/master''),
      (''.minigit/index'', []),
      (''.minigit/master'', ''17866608771867083923_temp_hash''),
      (''.minigit/refs/heads/master'', ''17866608771867083923_temp_hash''),
      (''.minigit/refs/heads/feature'', ''13766555629519536437_temp_hash''),
      (''.minigit/objects/6953583002563_temp_hash'', ''hello'' @ [NL]),
      (''.minigit/objects/16644585329497264047_temp_hash'', ''first'' @ [NL] @ ''Anonymous'' @ [NL] @ ''2024-01-01 10:00:00'' @ [NL] @ [NL] @ ''a.txt 6953583002563_temp_hash'' @ [NL]),
      (''.minigit/objects/5862460_temp_hash'', ''M'' @ [NL]),
      (''.minigit/objects/17866608771867083923_temp_hash'', ''add b'' @ [NL] @ ''Anonymous'' @ [NL] @ ''2024-01-02 10:00:00'' @ [NL] @ ''16644585329497264047_temp_hash'' @ [NL] @ ''a.txt 6953583002563_temp_hash'' @ [NL] @ ''b.txt 5862460_temp_hash'' @ [NL]),
      (''.minigit/objects/5862229_temp_hash'', ''F'' @ [NL]),
      (''.minigit/objects/13766555629519536437_temp_hash'', ''add c'' @ [NL] @ ''Anonymous'' @ [NL] @ ''2024-01-03 10:00:00'' @ [NL] @ ''16644585329497264047_temp_hash'' @ [NL] @ ''a.txt 6953583002563_temp_hash'' @ [NL] @ ''c.txt 5862229_temp_hash'' @ [NL]),
      (''a.txt'', ''hello'' @ [NL]),
      (''b.txt'', ''M'' @ [NL])]"

text \<open>What \<open>merge feature\<close> at 2024-01-04 10:00:00 makes of \<open>repo_diverged\<close>: the merge commit is the last object.\<close>

definition repo_diverged_merged :: fs where
  "repo_diverged_merged =
     [(''.minigit/HEAD'', ''ref: refs/heads/master''),
      (''.minigit/index'', ''staged 6953583002563_temp_hash a.txt'' @ [NL] @ ''staged 5862460_temp_hash b.txt'' @ [NL] @ ''staged 5862229_temp_hash c.txt'' @ [NL]),
      (''.minigit/master'', ''17866608771867083923_temp_hash''),
      (''.minigit/refs/heads/master'', ''7357489029210604552_temp_hash''),
      (''.minigit/refs/heads/feature'', ''13766555629519536437_temp_hash''),
      (''.minigit/objects/6953583002563_temp_hash'', ''hello'' @ [NL]),
      (''.minigit/objects/16644585329497264047_temp_hash'', ''first'' @ [NL] @ ''Anonymous'' @ [NL] @ ''2024-01-01 10:00:00'' @ [NL] @ [NL] @ ''a.txt 6953583002563_temp_hash'' @ [NL]),
      (''.minigit/objects/5862460_temp_hash'', ''M'' @ [NL]),
      (''.minigit/objects/17866608771867083923_temp_hash'', ''add b'' @ [NL] @ ''Anonymous'' @ [NL] @ ''2024-01-02 10:00:00'' @ [NL] @ ''16644585329497264047_temp_hash'' @ [NL] @ ''a.txt 6953583002563_temp_hash'' @ [NL] @ ''b.txt 5862460_temp_hash'' @ [NL]),
      (''.minigit/objects/5862229_temp_hash'', ''F'' @ [NL]),
      (''.minigit/objects/13766555629519536437_temp_hash'', ''add c'' @ [NL] @ ''Anonymous'' @ [NL] @ ''2024-01-03 10:00:00'' @ [NL] @ ''16644585329497264047_temp_hash'' @ [NL] @ ''a.txt 6953583002563_temp_hash'' @ [NL] @ ''c.txt 5862229_temp_hash'' @ [NL]),
      (''.minigit/objects/7357489029210604552_temp_hash'', ''Merge branch '' @ [CHR 0x27] @ ''feature'' @ [CHR 0x27] @ '' into master'' @ [NL] @ ''Anonymous'' @ [NL] @ ''2024-01-04 10:00:00'' @ [NL] @ ''17866608771867083923_temp_hash 13766555629519536437_temp_hash'' @ [NL] @ ''a.txt 6953583002563_temp_hash'' @ [NL] @ ''b.txt 5862460_temp_hash'' @ [NL] @ ''c.txt 5862229_temp_hash'' @ [NL]),
      (''a.txt'', ''hello'' @ [NL]),
      (''b.txt'', ''M'' @ [NL]),
      (''c.txt'', ''F'' @ [NL])]"

text \<open>The history of \<open>repo_behind\<close> after \<open>checkout\<close> of the first commit by its digest: HEAD is detached.\<close>

definition repo_detached :: fs where
  "repo_detached =
     [(''.minigit/HEAD'', ''16644585329497264047_temp_hash''),
      (''.minigit/index'', []),
      (''.minigit/refs/heads/master'', ''16644585329497264047_temp_hash''),
      (''.minigit/refs/heads/feature'', ''12843856236805605873_temp_hash''),
      (''.minigit/objects/6953583002563_temp_hash'', ''hello'' @ [NL]),
      (''.minigit/objects/16644585329497264047_temp_hash'', ''first'' @ [NL] @ ''Anonymous'' @ [NL] @ ''2024-01-01 10:00:00'' @ [NL] @ [NL] @ ''a.txt 6953583002563_temp_hash'' @ [NL]),
      (''.minigit/objects/15212097774910285909_temp_hash'', ''hello'' @ [NL] @ ''world'' @ [NL]),
      (''.minigit/objects/12843856236805605873_temp_hash'', ''on feature'' @ [NL] @ ''Anonymous'' @ [NL] @ ''2024-01-02 10:00:00'' @ [NL] @ ''16644585329497264047_temp_hash'' @ [NL] @ ''a.txt 15212097774910285909_temp_hash'' @ [NL]),
      (''a.txt'', ''hello'' @ [NL])]"

text \<open>The same with a file below \<open>.minigit\<close> named by the digest in HEAD from offset 16 on, holding that digest.\<close>

definition repo_detached_tail :: fs where
  "repo_detached_tail =
     [(''.minigit/HEAD'', ''16644585329497264047_temp_hash''),
      (''.minigit/index'', []),
      (''.minigit/4047_temp_hash'', ''16644585329497264047_temp_hash''),
      (''.minigit/refs/heads/master'', ''16644585329497264047_temp_hash''),
      (''.minigit/refs/heads/feature'', ''12843856236805605873_temp_hash''),
      (''.minigit/objects/6953583002563_temp_hash'', ''hello'' @ [NL]),
      (''.minigit/objects/16644585329497264047_temp_hash'', ''first'' @ [NL] @ ''Anonymous'' @ [NL] @ ''2024-01-01 10:00:00'' @ [NL] @ [NL] @ ''a.txt 6953583002563_temp_hash'' @ [NL]),
      (''.minigit/objects/15212097774910285909_temp_hash'', ''hello'' @ [NL] @ ''world'' @ [NL]),
      (''.minigit/objects/12843856236805605873_temp_hash'', ''on feature'' @ [NL] @ ''Anonymous'' @ [NL] @ ''2024-01-02 10:00:00'' @ [NL] @ ''16644585329497264047_temp_hash'' @ [NL] @ ''a.txt 15212097774910285909_temp_hash'' @ [NL]),
      (''a.txt'', ''hello'' @ [NL])]"

text \<open>After \<open>init\<close>, \<open>add empty.txt\<close> (an empty file) and \<open>checkout 5381_temp_hash\<close>: \<open>checkout\<close> takes the blob for a commit, writes its digest to HEAD and then fails to load it.\<close>

definition repo_detached_short :: fs where
  "repo_detached_short =
     [(''.minigit/HEAD'', ''5381_temp_hash''),
      (''.minigit/index'', ''staged 5381_temp_hash empty.txt'' @ [NL]),
      (''.minigit/objects/5381_temp_hash'', []),
      (''empty.txt'', [])]"


text \<open>The merge commit of \<open>repo_diverged_merged\<close> as a value.\<close>

definition merge_commit_diverged :: Commit where
  "merge_commit_diverged =
     \<lparr>hash = ''7357489029210604552_temp_hash'',
      message = ''Merge branch '' @ [CHR 0x27] @ ''feature'' @ [CHR 0x27] @ '' into master'',
      author = ''Anonymous'', timestamp = ''2024-01-04 10:00:00'',
      parents = [''17866608771867083923_temp_hash'', ''13766555629519536437_temp_hash''],
      snapshot = [(''a.txt'', ''6953583002563_temp_hash''), (''b.txt'', ''5862460_temp_hash''),
                  (''c.txt'', ''5862229_temp_hash'')]\<rparr>"

text \<open>The second commit of \<open>repo_dirty\<close> as a value.\<close>

definition commit_on_feature :: Commit where
  "commit_on_feature =
     \<lparr>hash = ''12843856236805605873_temp_hash'', message = ''on feature'', author = ''Anonymous'',
      timestamp = ''2024-01-02 10:00:00'', parents = [''16644585329497264047_temp_hash''],
      snapshot = [(''a.txt'', ''15212097774910285909_temp_hash'')]\<rparr>"

text \<open>A first commit of one empty file whose name holds a space.\<close>

definition commit_spaced :: Commit where
  "commit_spaced =
     \<lparr>hash = ''16644585329497264047_temp_hash'', message = ''first'', author = ''Anonymous'',
      timestamp = ''2024-01-01 10:00:00'', parents = [],
      snapshot = [(''my file.txt'', ''5381_temp_hash'')]\<rparr>"

text \<open>
  An object store in which \<open>A\<close> and \<open>B\<close> name each other as parents, and \<open>A\<close> also
  names \<open>M\<close>, of which there is no object.
\<close>

definition store_cyclic :: fs where
  "store_cyclic =
     [(''.minigit/objects/A'', ''a'' @ [NL] @ ''Anonymous'' @ [NL] @ ''t'' @ [NL] @ ''B M'' @ [NL]),
      (''.minigit/objects/B'', ''b'' @ [NL] @ ''Anonymous'' @ [NL] @ ''t'' @ [NL] @ ''A'' @ [NL])]"


text \<open>
  An object store in which \<open>A\<close> names the parents \<open>sub\<close> and \<open>B\<close>, where \<open>B\<close> is a
  root commit and \<open>sub\<close> is a directory of the object store (it holds the file \<open>x\<close>).
\<close>

definition store_directory_parent :: fs where
  "store_directory_parent =
     [(''.minigit/objects/A'', ''a'' @ [NL] @ ''Anonymous'' @ [NL] @ ''t'' @ [NL] @ ''sub B'' @ [NL]),
      (''.minigit/objects/B'', ''b'' @ [NL] @ ''Anonymous'' @ [NL] @ ''t'' @ [NL] @ [NL]),
      (''.minigit/objects/sub/x'', ''x'')]"

section \<open>Evaluation\<close>

text \<open>The defining equations by which the simplifier runs the model on a concrete input.\<close>

lemmas eval_simps =
  pjoin_def startsWith_def readFile_def writeFile_def is_regular_file_def is_directory_def
  fs_exists_def split_first_def substr_from_def getline_def getlines.simps isspace_def
  extract_tokens.simps set_insert_def set_erase_def
  char_to_size_t_def digit_char_def to_string.simps computeHash_def
  indexPath_def new_StagingArea_def saveIndex_def addFile_def removeFile_def clear_def isEmpty_def
  loadIndex_line_def loadIndex_def head_entry_changed_def untracked_entry_def hasUnstagedChanges_def
  default_Commit_def new_Commit_def addParent_def isValid_def commitContent_def saveToObjectStore_def
  parse_snapshot_line_def loadFromObjectStore_def existsInObjectStore_def createFromStagingArea_def
  top_component_def clear_working_directory_def restoreToWorkingDirectory_def
  minigitDir_def objectsDir_def refsDir_def headFile_def writeBranchRef_def
  currentHeadCommitHash_def headCommitObj_def Let_def
  isAncestor_step_def isAncestor_running_def isAncestor_def findLCA_step1_def findLCA_step2_def
  findLCA_running2_def findLCA_dist1_def findLCA_def while_option_unfold merge_file_def allFiles_def

lemmas exn_simps =
  readFile_throws_def loadFromObjectStore_exn_def exn_running_def exn_step_def
  isAncestor_step_exn_def isAncestor_exn_def findLCA_step1_exn_def findLCA_step2_exn_def
  findLCA_dist1_exn_def findLCA_exn_def

lemmas funpow_eval = eval_nat_numeral

section \<open>The index invariant\<close>

lemma set_set_insert: "set (set_insert x xs) = insert x (set xs)"
  by (auto simp: set_insert_def set_insort_key)

lemma set_set_erase: "set (set_erase x xs) = set xs - {x}"
  by (auto simp: set_erase_def)

lemma keys_update: "set (map fst (AList.update k v al)) = insert k (set (map fst al))"
  using AList.dom_update [of k v al] by simp

lemma keys_delete: "set (map fst (AList.delete k al)) = set (map fst al) - {k}"
  by (simp add: AList.delete_keys)

lemma addFile_disjoint:
  "staging_disjoint st \<Longrightarrow> staging_disjoint (fst (snd (addFile st fs p)))"
  by (auto simp: staging_disjoint_def addFile_def Let_def keys_update set_set_erase
           simp del: set_map)

lemma removeFile_disjoint:
  "staging_disjoint st \<Longrightarrow> staging_disjoint (fst (snd (removeFile st fs p)))"
  by (auto simp: staging_disjoint_def removeFile_def Let_def keys_delete set_set_insert
           simp del: set_map)

lemma clear_disjoint: "staging_disjoint (clear st)"
  by (simp add: staging_disjoint_def clear_def)

lemma reachable_disjoint: "staging_reachable st \<Longrightarrow> staging_disjoint st"
proof (induction rule: staging_reachable.induct)
  case reach_new
  show ?case by (simp add: staging_disjoint_def new_StagingArea_def)
next
  case (reach_add st fs p)
  then show ?case by (simp add: addFile_disjoint)
next
  case (reach_remove st fs p)
  then show ?case by (simp add: removeFile_disjoint)
next
  case (reach_clear st)
  show ?case by (rule clear_disjoint)
qed

lemma addFile_effect:
  assumes "fs_exists fs p"
  shows "map_of (stagedFiles (fst (snd (addFile st fs p)))) p = Some (computeHash (readFile fs p))
         \<and> p \<notin> set (removedFiles (fst (snd (addFile st fs p))))"
  using assms by (simp add: addFile_def Let_def AList.update_conv' set_set_erase)

lemma removeFile_effect:
  "map_of (stagedFiles (fst (snd (removeFile st fs p)))) p = None
   \<and> p \<in> set (removedFiles (fst (snd (removeFile st fs p))))"
  by (simp add: removeFile_def Let_def AList.delete_conv' set_set_insert)

text \<open>
  Claim C9. The staged paths and the removed paths are disjoint in every staging area that
  \<open>addFile\<close>, \<open>removeFile\<close> and \<open>clear\<close> can produce from a new one, on any file
  systems; each of the three operations keeps the two disjoint; \<open>addFile\<close> of an existing
  file maps the path to the digest of the file's content and takes it out of the removed
  set; \<open>removeFile\<close> takes the path out of the staged map and puts it into the removed set.
\<close>

theorem staging_index_invariant:
  "(staging_reachable st \<longrightarrow> staging_disjoint st)
   \<and> (staging_disjoint st \<longrightarrow>
        staging_disjoint (fst (snd (addFile st fs p)))
        \<and> staging_disjoint (fst (snd (removeFile st fs p)))
        \<and> staging_disjoint (clear st))
   \<and> (fs_exists fs p \<longrightarrow>
        map_of (stagedFiles (fst (snd (addFile st fs p)))) p = Some (computeHash (readFile fs p))
        \<and> p \<notin> set (removedFiles (fst (snd (addFile st fs p)))))
   \<and> map_of (stagedFiles (fst (snd (removeFile st fs p)))) p = None
   \<and> p \<in> set (removedFiles (fst (snd (removeFile st fs p))))"
  using reachable_disjoint addFile_disjoint removeFile_disjoint clear_disjoint
    addFile_effect removeFile_effect by blast

text \<open>
  The invariant at work: \<open>a.txt\<close> is removed and then added again on the file system
  \<open>repo_staged\<close>, whose \<open>a.txt\<close> holds \<open>hello\<close> and a newline.
\<close>

theorem staging_index_invariant_witness:
  "staging_reachable \<lparr>stagedFiles = [], removedFiles = [''a.txt'']\<rparr>
   \<and> staging_disjoint \<lparr>stagedFiles = [], removedFiles = [''a.txt'']\<rparr>
   \<and> fs_exists repo_staged ''a.txt''
   \<and> fst (snd (addFile \<lparr>stagedFiles = [], removedFiles = [''a.txt'']\<rparr> repo_staged ''a.txt''))
       = \<lparr>stagedFiles = [(''a.txt'', ''6953583002563_temp_hash'')], removedFiles = []\<rparr>
   \<and> staging_disjoint (fst (snd (addFile \<lparr>stagedFiles = [], removedFiles = [''a.txt'']\<rparr> repo_staged ''a.txt'')))
   \<and> staging_disjoint (fst (snd (removeFile \<lparr>stagedFiles = [], removedFiles = [''a.txt'']\<rparr> repo_staged ''a.txt'')))
   \<and> map_of (stagedFiles (fst (snd (addFile \<lparr>stagedFiles = [], removedFiles = [''a.txt'']\<rparr> repo_staged ''a.txt'')))) ''a.txt''
       = Some ''6953583002563_temp_hash''
   \<and> ''a.txt'' \<in> set (removedFiles (fst (snd (removeFile \<lparr>stagedFiles = [], removedFiles = [''a.txt'']\<rparr> repo_staged ''a.txt''))))"
proof -
  let ?st = "\<lparr>stagedFiles = [], removedFiles = [''a.txt'']\<rparr>"
  have eq: "fst (snd (removeFile new_StagingArea repo_staged ''a.txt'')) = ?st"
    by (simp add: removeFile_def new_StagingArea_def Let_def set_insert_def)
  have r: "staging_reachable ?st"
    using reach_remove [OF reach_new, of repo_staged "''a.txt''"] unfolding eq .
  have e: "fs_exists repo_staged ''a.txt''"
    by (simp add: repo_staged_def fs_exists_def is_regular_file_def)
  have h: "computeHash (readFile repo_staged ''a.txt'') = ''6953583002563_temp_hash''"
    by (simp add: repo_staged_def eval_simps)
  have a: "fst (snd (addFile ?st repo_staged ''a.txt''))
           = \<lparr>stagedFiles = [(''a.txt'', ''6953583002563_temp_hash'')], removedFiles = []\<rparr>"
    using e h by (simp add: addFile_def Let_def set_erase_def)
  from staging_index_invariant [of ?st repo_staged "''a.txt''"] r e h a
  show ?thesis by simp
qed

section \<open>What \<open>commit\<close> records\<close>

lemma loadIndex_nonempty_regular:
  assumes "\<not> isEmpty (loadIndex fs)"
  shows "is_regular_file fs indexPath"
proof (rule ccontr)
  assume "\<not> is_regular_file fs indexPath"
  then have "readFile fs indexPath = []"
    by (simp add: is_regular_file_def readFile_def)
  then have "loadIndex fs = new_StagingArea"
    by (simp add: loadIndex_def getlines.simps)
  with assms show False by (simp add: isEmpty_def new_StagingArea_def)
qed

text \<open>
  \<open>commit\<close> hands the path of the index file to \<open>createFromStagingArea\<close> as the staging
  directory. A non-empty index is a regular file, so the directory walk fails and every
  call of \<open>commit\<close> ends in an error exit with the file system as it was.
\<close>

lemma commit_never_succeeds: "\<exists>e. commit fs now msg = (Inl e, fs)"
proof (cases "fs_exists fs minigitDir")
  case False
  then show ?thesis by (simp add: commit_def)
next
  case True
  show ?thesis
  proof (cases "isEmpty (loadIndex fs)")
    case True
    with \<open>fs_exists fs minigitDir\<close> show ?thesis by (simp add: commit_def)
  next
    case False
    then have "is_regular_file fs indexPath" by (rule loadIndex_nonempty_regular)
    then have "\<And>c op. createFromStagingArea c fs indexPath op = (False, c\<lparr>snapshot := []\<rparr>, fs)"
      by (simp add: createFromStagingArea_def fs_exists_def)
    with False \<open>fs_exists fs minigitDir\<close> show ?thesis by (simp add: commit_def Let_def)
  qed
qed

text \<open>
  Claim C2 says that \<open>commit\<close> records the HEAD snapshot overlaid with the index. On
  \<open>repo_staged\<close> (HEAD unborn, \<open>a.txt\<close> staged) the overlay is the one staged entry, yet
  \<open>commit\<close> leaves through the exit "Error creating commit from staging area" and writes
  no commit, no ref and no index.
\<close>

theorem commit_staged_repo_fails:
  "stagedFiles (loadIndex repo_staged) = [(''a.txt'', ''6953583002563_temp_hash'')]
   \<and> removedFiles (loadIndex repo_staged) = []
   \<and> commit repo_staged ''2024-01-01 10:00:00'' ''first'' = (Inl SnapshotError, repo_staged)"
  by (simp add: repo_staged_def commit_def eval_simps)

section \<open>The safety gate of \<open>checkout\<close>\<close>

text \<open>
  Claim C4. In an initialised repository, when \<open>hasUnstagedChanges\<close> holds of the index
  as loaded, the working tree and the snapshot of the HEAD commit, \<open>checkout\<close> of any
  reference fails with \<open>WouldOverwrite\<close> and the whole file system (working tree, refs,
  HEAD and index) is what it was.
\<close>

theorem checkout_unsafe_no_mutation:
  assumes "fs_exists fs minigitDir"
    and "hasUnstagedChanges (loadIndex fs) fs (snapshot (headCommitObj fs))"
  shows "checkout fs ref = (Inl WouldOverwrite, fs)"
  using assms by (simp add: checkout_def Let_def)

text \<open>
  On \<open>repo_dirty\<close> the working tree's \<open>a.txt\<close> differs from the one HEAD records, and
  \<open>checkout feature\<close> is refused.
\<close>

theorem checkout_unsafe_no_mutation_witness:
  "fs_exists repo_dirty minigitDir
   \<and> hasUnstagedChanges (loadIndex repo_dirty) repo_dirty (snapshot (headCommitObj repo_dirty))
   \<and> checkout repo_dirty ''feature'' = (Inl WouldOverwrite, repo_dirty)"
proof -
  have e: "fs_exists repo_dirty minigitDir"
    by (simp add: repo_dirty_def eval_simps)
  have u: "hasUnstagedChanges (loadIndex repo_dirty) repo_dirty (snapshot (headCommitObj repo_dirty))"
    by (simp add: repo_dirty_def eval_simps)
  from e u checkout_unsafe_no_mutation [OF e u, of "''feature''"] show ?thesis by simp
qed

section \<open>Fast-forward merges\<close>

text \<open>
  Claim C5 says that a merge from an attached HEAD at a strict ancestor of the other tip,
  with a clean working tree, fast-forwards. On \<open>repo_behind\<close> HEAD is attached to
  \<open>master\<close> at the first commit, \<open>feature\<close> is one commit ahead, \<open>isAncestor\<close> holds and
  the tree is clean; \<open>merge feature\<close> reads the current commit from \<open>.minigit/master\<close>,
  finds nothing, and leaves through the exit "Current branch 'master' has no commits"
  without moving the branch.
\<close>

theorem merge_fast_forward_fails:
  "readFile repo_behind headFile = ''ref: refs/heads/master''
   \<and> currentHeadCommitHash repo_behind = ''16644585329497264047_temp_hash''
   \<and> readFile repo_behind (pjoin refsDir ''feature'') = ''12843856236805605873_temp_hash''
   \<and> isAncestor repo_behind objectsDir ''16644585329497264047_temp_hash''
        ''12843856236805605873_temp_hash'' = Some True
   \<and> \<not> hasUnstagedChanges (loadIndex repo_behind) repo_behind (snapshot (headCommitObj repo_behind))
   \<and> merge repo_behind ''2024-01-04 10:00:00'' ''feature''
       = Some (Inl (NoCommits ''master''), repo_behind)"
  by (simp add: repo_behind_def merge_def eval_simps)

section \<open>The commit round trip\<close>

lemma takeWhile_until: "c \<notin> set l \<Longrightarrow> takeWhile (\<lambda>x. x \<noteq> c) (l @ c # r) = l"
  by (induction l) auto

lemma dropWhile_until: "c \<notin> set l \<Longrightarrow> dropWhile (\<lambda>x. x \<noteq> c) (l @ c # r) = c # r"
  by (induction l) auto

lemma getline_line: "NL \<notin> set l \<Longrightarrow> getline (l @ NL # r) = (l, r)"
  by (simp add: getline_def takeWhile_until dropWhile_until)

lemma getlines_Nil: "getlines [] = []"
  by (simp add: getlines.simps)

lemma getlines_line: "NL \<notin> set l \<Longrightarrow> getlines (l @ NL # r) = l # getlines r"
  by (subst getlines.simps) (simp add: getline_line)

lemma extract_tokens_Nil: "extract_tokens [] = []"
  by (simp add: extract_tokens.simps)

lemma extract_tokens_space: "extract_tokens (CHR '' '' # s) = extract_tokens s"
  by (subst extract_tokens.simps, subst (2) extract_tokens.simps) (simp add: isspace_def)

lemma extract_tokens_token:
  assumes "token p" and "r = [] \<or> isspace (hd r)"
  shows "extract_tokens (p @ r) = p # extract_tokens r"
proof -
  from assms(1) obtain c p' where p: "p = c # p'" and c: "\<not> isspace c"
    by (cases p) (auto simp: token_def list_all_iff)
  have all: "\<forall>x\<in>set p. \<not> isspace x" using assms(1) by (simp add: token_def list_all_iff)
  have d: "dropWhile isspace (p @ r) = p @ r" using p c by simp
  have t: "takeWhile (\<lambda>c. \<not> isspace c) (p @ r) = p"
  proof (cases r)
    case Nil
    with all show ?thesis by simp
  next
    case (Cons x xs)
    with assms(2) have "isspace x" by simp
    with all Cons show ?thesis by simp
  qed
  have dr: "dropWhile (\<lambda>c. \<not> isspace c) (p @ r) = r"
  proof (cases r)
    case Nil
    with all show ?thesis by simp
  next
    case (Cons x xs)
    with assms(2) have "isspace x" by simp
    with all Cons show ?thesis by simp
  qed
  have "p @ r \<noteq> []" using p by simp
  then show ?thesis
    by (subst extract_tokens.simps) (simp only: d t dr if_False)
qed

lemma extract_tokens_join:
  "\<forall>p\<in>set ps. token p \<Longrightarrow> extract_tokens (join_parents ps) = ps"
proof (induction ps rule: join_parents.induct)
  case 1
  show ?case by (simp add: extract_tokens_Nil)
next
  case (2 p)
  then have "token p" by simp
  from extract_tokens_token [OF this, of "[]"] show ?case
    by (simp add: extract_tokens_Nil)
next
  case (3 p q ps)
  then have tp: "token p" and ih: "extract_tokens (join_parents (q # ps)) = q # ps"
    by simp_all
  have "extract_tokens (p @ CHR '' '' # join_parents (q # ps))
        = p # extract_tokens (CHR '' '' # join_parents (q # ps))"
    by (rule extract_tokens_token [OF tp]) (simp add: isspace_def)
  with ih show ?case by (simp add: extract_tokens_space)
qed

lemma join_parents_no_NL:
  "\<forall>p\<in>set ps. token p \<Longrightarrow> NL \<notin> set (join_parents ps)"
  by (induction ps rule: join_parents.induct) (auto simp: token_def isspace_def list_all_iff)

lemma split_first_entry:
  "CHR '' '' \<notin> set p \<Longrightarrow> split_first (CHR '' '') (p @ CHR '' '' # h) = Some (p, h)"
  by (simp add: split_first_def takeWhile_until dropWhile_until)

lemma update_fresh: "k \<notin> fst ` set al \<Longrightarrow> AList.update k v al = al @ [(k, v)]"
  by (induction al) auto

lemma fold_parse_snapshot:
  assumes "distinct (map fst xs)" and "fst ` set xs \<inter> fst ` set acc = {}"
    and "\<forall>e\<in>set xs. CHR '' '' \<notin> set (fst e)"
  shows "fold parse_snapshot_line (map (\<lambda>e. fst e @ '' '' @ snd e) xs) acc = acc @ xs"
  using assms
proof (induction xs arbitrary: acc)
  case Nil
  show ?case by simp
next
  case (Cons e xs)
  have step: "parse_snapshot_line (fst e @ '' '' @ snd e) acc = acc @ [e]"
    using Cons.prems by (cases e) (simp add: parse_snapshot_line_def split_first_entry update_fresh)
  have "fold parse_snapshot_line (map (\<lambda>e. fst e @ '' '' @ snd e) xs) (acc @ [e]) = (acc @ [e]) @ xs"
    using Cons.prems by (intro Cons.IH) auto
  with step show ?case by simp
qed

lemma getlines_entries:
  "\<forall>e\<in>set xs. NL \<notin> set (fst e) \<and> NL \<notin> set (snd e) \<Longrightarrow>
   getlines (concat (map (\<lambda>e. fst e @ '' '' @ snd e @ [NL]) xs)) = map (\<lambda>e. fst e @ '' '' @ snd e) xs"
proof (induction xs)
  case Nil
  show ?case by (simp add: getlines_Nil)
next
  case (Cons e xs)
  have "getlines ((fst e @ '' '' @ snd e) @ NL # concat (map (\<lambda>e. fst e @ '' '' @ snd e @ [NL]) xs))
        = (fst e @ '' '' @ snd e) # getlines (concat (map (\<lambda>e. fst e @ '' '' @ snd e @ [NL]) xs))"
    using Cons.prems by (intro getlines_line) auto
  with Cons show ?case by simp
qed

text \<open>
  Claim C7, amended. For every well-formed commit (headers without a newline, parents
  non-empty and free of white space, snapshot paths distinct and free of spaces and
  newlines, blob digests free of newlines), loading the object that \<open>saveToObjectStore\<close>
  wrote, under the digest it was stored by, yields the commit that was saved: the same
  message, author, time stamp, parents in order and snapshot.
\<close>

theorem commit_round_trip:
  assumes "well_formed_commit c"
  shows "loadFromObjectStore (snd (saveToObjectStore c op fs)) op (hash (fst (saveToObjectStore c op fs)))
         = fst (saveToObjectStore c op fs)"
proof -
  let ?c' = "fst (saveToObjectStore c op fs)"
  let ?snap = "concat (map (\<lambda>e. fst e @ CHR '' '' # snd e @ [NL]) (snapshot c))"
  have tok: "\<forall>p\<in>set (parents c). token p"
    using assms by (auto simp: well_formed_commit_def token_def list_all_iff)
  have ent: "\<forall>e\<in>set (snapshot c). NL \<notin> set (fst e) \<and> NL \<notin> set (snd e)"
    and sp: "\<forall>e\<in>set (snapshot c). CHR '' '' \<notin> set (fst e)"
    and dist: "distinct (map fst (snapshot c))"
    and hdr: "NL \<notin> set (message c)" "NL \<notin> set (author c)" "NL \<notin> set (timestamp c)"
    using assms by (auto simp: well_formed_commit_def list_all_iff)
  have rd: "readFile (snd (saveToObjectStore c op fs)) (pjoin op (hash ?c')) = commitContent c"
    by (simp add: saveToObjectStore_def Let_def readFile_def writeFile_def AList.update_conv')
  have ne: "commitContent c \<noteq> []" by (simp add: commitContent_def)
  have g1: "getline (commitContent c) = (message c, author c @ NL # timestamp c @ NL # join_parents (parents c) @ NL # ?snap)"
    using hdr by (simp add: commitContent_def getline_line)
  have g2: "getline (author c @ NL # timestamp c @ NL # join_parents (parents c) @ NL # ?snap)
            = (author c, timestamp c @ NL # join_parents (parents c) @ NL # ?snap)"
    using hdr by (simp add: getline_line)
  have g3: "getline (timestamp c @ NL # join_parents (parents c) @ NL # ?snap)
            = (timestamp c, join_parents (parents c) @ NL # ?snap)"
    using hdr by (simp add: getline_line)
  have g4: "getline (join_parents (parents c) @ NL # ?snap) = (join_parents (parents c), ?snap)"
    using join_parents_no_NL [OF tok] by (simp add: getline_line)
  have ps: "(if join_parents (parents c) \<noteq> [] then extract_tokens (join_parents (parents c)) else []) = parents c"
    using extract_tokens_join [OF tok] by (auto simp: extract_tokens_Nil)
  have sn: "fold parse_snapshot_line (getlines ?snap) [] = snapshot c"
    using getlines_entries [OF ent] fold_parse_snapshot [OF dist _ sp, of "[]"] by simp
  have "loadFromObjectStore (snd (saveToObjectStore c op fs)) op (hash ?c')
        = \<lparr>hash = hash ?c', message = message c, author = author c, timestamp = timestamp c,
           parents = parents c, snapshot = snapshot c\<rparr>"
    unfolding loadFromObjectStore_def rd Let_def using ne
    by (simp add: g1 g2 g3 g4 ps sn del: append_assoc)
  also have "\<dots> = ?c'"
    by (simp add: saveToObjectStore_def Let_def)
  finally show ?thesis .
qed

text \<open>The second commit of the example history survives the round trip.\<close>

theorem commit_round_trip_witness:
  "well_formed_commit commit_on_feature
   \<and> fst (saveToObjectStore commit_on_feature objectsDir []) = commit_on_feature
   \<and> loadFromObjectStore (snd (saveToObjectStore commit_on_feature objectsDir [])) objectsDir
         (hash (fst (saveToObjectStore commit_on_feature objectsDir [])))
       = fst (saveToObjectStore commit_on_feature objectsDir [])"
proof -
  have w: "well_formed_commit commit_on_feature"
    by (simp add: well_formed_commit_def commit_on_feature_def isspace_def)
  have s: "fst (saveToObjectStore commit_on_feature objectsDir []) = commit_on_feature"
    by (simp add: saveToObjectStore_def commit_on_feature_def Let_def)
  from w s commit_round_trip [OF w, of objectsDir "[]"] show ?thesis by simp
qed

text \<open>
  Claim C7 as stated includes paths with spaces. The snapshot line is split at its first
  space, so the path \<open>my file.txt\<close> comes back as \<open>my\<close> with the rest of the line as
  its digest.
\<close>

theorem commit_round_trip_space_counterexample:
  "fst (saveToObjectStore commit_spaced objectsDir []) = commit_spaced
   \<and> snapshot commit_spaced = [(''my file.txt'', ''5381_temp_hash'')]
   \<and> snapshot (loadFromObjectStore (snd (saveToObjectStore commit_spaced objectsDir [])) objectsDir
         (hash commit_spaced)) = [(''my'', ''file.txt 5381_temp_hash'')]
   \<and> loadFromObjectStore (snd (saveToObjectStore commit_spaced objectsDir [])) objectsDir
         (hash commit_spaced) \<noteq> commit_spaced"
  by (simp add: commit_spaced_def eval_simps)

section \<open>The ancestry walks\<close>

lemma runs_for_iff: "runs_for b c s j \<longleftrightarrow> (\<forall>k\<le>j. b ((c ^^ k) s))"
proof (induction j arbitrary: s)
  case 0
  show ?case by simp
next
  case (Suc j)
  have "(\<forall>k\<le>Suc j. b ((c ^^ k) s)) \<longleftrightarrow> b s \<and> (\<forall>k\<le>j. b ((c ^^ Suc k) s))"
  proof
    assume a: "\<forall>k\<le>Suc j. b ((c ^^ k) s)"
    then have "b ((c ^^ 0) s)" by blast
    moreover have "\<forall>k\<le>j. b ((c ^^ Suc k) s)" using a by auto
    ultimately show "b s \<and> (\<forall>k\<le>j. b ((c ^^ Suc k) s))" by simp
  next
    assume a: "b s \<and> (\<forall>k\<le>j. b ((c ^^ Suc k) s))"
    show "\<forall>k\<le>Suc j. b ((c ^^ k) s)"
    proof (intro allI impI)
      fix k assume "k \<le> Suc j"
      then show "b ((c ^^ k) s)" using a by (cases k) auto
    qed
  qed
  then show ?case using Suc.IH [of "c s"] by (simp add: funpow_swap1)
qed

lemma bfs_succ_measure:
  assumes "finite U" and "bfs_succ U s t"
  shows "bfs_measure U t < bfs_measure U s"
proof -
  from assms(2) obtain cur rest new where
    s: "fst s = cur # rest" and t: "fst t = rest @ new" "snd t = snd s \<union> set new"
    and d: "distinct new" and n: "set new \<inter> snd s = {}" and u: "set new \<subseteq> U"
    unfolding bfs_succ_def by blast
  have sub: "set new \<subseteq> U - snd s" using n u by blast
  have fin: "finite (U - snd s)" using assms(1) by simp
  have "U - snd t = (U - snd s) - set new" using t by blast
  then have "card (U - snd t) = card (U - snd s) - card (set new)"
    using sub fin by (simp add: card_Diff_subset)
  moreover have "card (set new) = length new" using d by (simp add: distinct_card)
  moreover have "length new \<le> card (U - snd s)"
    using card_mono [OF fin sub] d by (simp add: distinct_card)
  ultimately show ?thesis by (simp add: bfs_measure_def s t)
qed

lemma bfs_visit_once:
  assumes step: "\<And>s. b s \<Longrightarrow> bfs_succ U (proj s) (proj (c s))"
    and init: "distinct (fst (proj s0))" "set (fst (proj s0)) \<subseteq> snd (proj s0)"
    and run: "runs_for b c s0 j" and ij: "i < j"
  shows "hd (fst (proj ((c ^^ i) s0))) \<noteq> hd (fst (proj ((c ^^ j) s0)))"
proof -
  have running: "\<And>k. k \<le> j \<Longrightarrow> b ((c ^^ k) s0)"
    using run by (simp add: runs_for_iff)
  have inv: "n \<le> j \<Longrightarrow>
      distinct (fst (proj ((c ^^ n) s0)))
      \<and> set (fst (proj ((c ^^ n) s0))) \<subseteq> snd (proj ((c ^^ n) s0))
      \<and> (\<forall>i<n. hd (fst (proj ((c ^^ i) s0))) \<in> snd (proj ((c ^^ n) s0)) - set (fst (proj ((c ^^ n) s0))))" for n
  proof (induction n)
    case 0
    show ?case using init by simp
  next
    case (Suc n)
    let ?s = "(c ^^ n) s0"
    from Suc have ih: "distinct (fst (proj ?s))" "set (fst (proj ?s)) \<subseteq> snd (proj ?s)"
      "\<forall>i<n. hd (fst (proj ((c ^^ i) s0))) \<in> snd (proj ?s) - set (fst (proj ?s))"
      by simp_all
    have "b ?s" using running Suc.prems by simp
    from step [OF this] obtain cur rest new where
      s: "fst (proj ?s) = cur # rest" and t: "fst (proj (c ?s)) = rest @ new"
      "snd (proj (c ?s)) = snd (proj ?s) \<union> set new"
      and d: "distinct new" and n: "set new \<inter> snd (proj ?s) = {}"
      unfolding bfs_succ_def by blast
    have 1: "distinct (rest @ new)" using ih(1,2) s d n by auto
    have 2: "set (rest @ new) \<subseteq> snd (proj ?s) \<union> set new" using ih(2) s by auto
    have 3: "\<forall>i<Suc n. hd (fst (proj ((c ^^ i) s0))) \<in> (snd (proj ?s) \<union> set new) - set (rest @ new)"
    proof (intro allI impI)
      fix i assume "i < Suc n"
      show "hd (fst (proj ((c ^^ i) s0))) \<in> (snd (proj ?s) \<union> set new) - set (rest @ new)"
      proof (cases "i = n")
        case True
        then show ?thesis using s ih(1,2) n by auto
      next
        case False
        with \<open>i < Suc n\<close> have "i < n" by simp
        with ih(3) have "hd (fst (proj ((c ^^ i) s0))) \<in> snd (proj ?s) - set (fst (proj ?s))" by blast
        then show ?thesis using s n by auto
      qed
    qed
    have e: "(c ^^ Suc n) s0 = c ?s" by simp
    show ?case unfolding e t using 1 2 3 by blast
  qed
  from inv [of j] ij have "hd (fst (proj ((c ^^ i) s0))) \<notin> set (fst (proj ((c ^^ j) s0)))"
    by auto
  moreover have "b ((c ^^ j) s0)" using running by simp
  from step [OF this] have "fst (proj ((c ^^ j) s0)) \<noteq> []"
    unfolding bfs_succ_def by auto
  then have "hd (fst (proj ((c ^^ j) s0))) \<in> set (fst (proj ((c ^^ j) s0)))" by simp
  ultimately show ?thesis by metis
qed

lemma finite_store_universe: "finite (store_universe fs op)"
proof -
  let ?H = "(\<lambda>k. drop (length op + 1) k) ` fst ` set fs"
  have "store_universe fs op \<subseteq> (\<Union>h\<in>?H. set (parents (loadFromObjectStore fs op h)))"
  proof
    fix p assume "p \<in> store_universe fs op"
    then obtain h where h: "p \<in> set (parents (loadFromObjectStore fs op h))"
      by (auto simp: store_universe_def)
    have "readFile fs (pjoin op h) \<noteq> []"
    proof
      assume "readFile fs (pjoin op h) = []"
      then have "loadFromObjectStore fs op h = default_Commit"
        by (simp add: loadFromObjectStore_def)
      with h show False by (simp add: default_Commit_def)
    qed
    then obtain c where "map_of fs (pjoin op h) = Some c"
      by (auto simp: readFile_def split: option.splits)
    then have "pjoin op h \<in> fst ` set fs"
      by (metis domI dom_map_of_conv_image_fst)
    moreover have "drop (length op + 1) (pjoin op h) = h" by (simp add: pjoin_def)
    ultimately have "h \<in> ?H" by force
    with h show "p \<in> (\<Union>h\<in>?H. set (parents (loadFromObjectStore fs op h)))" by blast
  qed
  moreover have "finite (\<Union>h\<in>?H. set (parents (loadFromObjectStore fs op h)))" by simp
  ultimately show ?thesis by (rule finite_subset)
qed

lemma parents_in_universe: "set (parents (loadFromObjectStore fs op h)) \<subseteq> store_universe fs op"
  by (auto simp: store_universe_def)


lemma isAncestor_parents_shape:
  "\<exists>new f'. isAncestor_parents a ps (q, vis, f) = (q @ new, vis \<union> set new, f')
      \<and> distinct new \<and> set new \<inter> vis = {} \<and> set new \<subseteq> set ps"
proof (induction ps arbitrary: q vis)
  case Nil
  show ?case by (intro exI [of _ "[]"] exI [of _ f]) simp
next
  case (Cons p ps)
  show ?case
  proof (cases "p = a")
    case True
    show ?thesis by (intro exI [of _ "[]"] exI [of _ True]) (simp add: True)
  next
    case False
    show ?thesis
    proof (cases "p \<in> vis")
      case True
      from Cons [of q vis] obtain new f' where
        "isAncestor_parents a ps (q, vis, f) = (q @ new, vis \<union> set new, f')"
        "distinct new" "set new \<inter> vis = {}" "set new \<subseteq> set ps" by blast
      with True False show ?thesis by auto
    next
      case nin: False
      from Cons [of "q @ [p]" "insert p vis"] obtain new f' where
        r: "isAncestor_parents a ps (q @ [p], insert p vis, f) = ((q @ [p]) @ new, insert p vis \<union> set new, f')"
        and d: "distinct new" and n: "set new \<inter> insert p vis = {}" and s: "set new \<subseteq> set ps" by blast
      have "isAncestor_parents a (p # ps) (q, vis, f) = (q @ (p # new), vis \<union> set (p # new), f')"
        using False nin r by simp
      moreover have "distinct (p # new)" using d n by auto
      moreover have "set (p # new) \<inter> vis = {}" using n nin by auto
      moreover have "set (p # new) \<subseteq> set (p # ps)" using s by auto
      ultimately show ?thesis by blast
    qed
  qed
qed

lemma findLCA_parents2_shape:
  "\<exists>new. findLCA_parents2 ps (q, vis) = (q @ new, vis \<union> set new)
      \<and> distinct new \<and> set new = set ps - vis"
proof (induction ps arbitrary: q vis)
  case Nil
  show ?case by simp
next
  case (Cons p ps)
  show ?case
  proof (cases "p \<in> vis")
    case True
    from Cons [of q vis] obtain new where
      "findLCA_parents2 ps (q, vis) = (q @ new, vis \<union> set new)" "distinct new" "set new = set ps - vis"
      by blast
    with True show ?thesis by auto
  next
    case nin: False
    from Cons [of "q @ [p]" "insert p vis"] obtain new where
      r: "findLCA_parents2 ps (q @ [p], insert p vis) = ((q @ [p]) @ new, insert p vis \<union> set new)"
      and d: "distinct new" and n: "set new = set ps - insert p vis" by blast
    have "findLCA_parents2 (p # ps) (q, vis) = (q @ (p # new), vis \<union> set (p # new))"
      using nin r by simp
    moreover have "distinct (p # new)" using d n by auto
    moreover have "set (p # new) = set (p # ps) - vis" using n nin by auto
    ultimately show ?thesis by blast
  qed
qed

lemma findLCA_parents1_shape:
  "\<exists>new dist'. findLCA_parents1 d ps (q, dist) = (q @ new, dist')
      \<and> dom dist' = dom dist \<union> set new \<and> distinct new \<and> set new = set ps - dom dist"
proof (induction ps arbitrary: q dist)
  case Nil
  show ?case by simp
next
  case (Cons p ps)
  show ?case
  proof (cases "dist p = None")
    case False
    then have pin: "p \<in> dom dist" by auto
    from Cons [of q dist] obtain new dist' where
      "findLCA_parents1 d ps (q, dist) = (q @ new, dist')" "dom dist' = dom dist \<union> set new"
      "distinct new" "set new = set ps - dom dist" by blast
    with False pin show ?thesis by auto
  next
    case True
    then have nin: "p \<notin> dom dist" by auto
    from Cons [of "q @ [p]" "dist(p \<mapsto> d + 1)"] obtain new dist' where
      r: "findLCA_parents1 d ps (q @ [p], dist(p \<mapsto> d + 1)) = ((q @ [p]) @ new, dist')"
      and dm: "dom dist' = dom (dist(p \<mapsto> d + 1)) \<union> set new"
      and d: "distinct new" and n: "set new = set ps - dom (dist(p \<mapsto> d + 1))" by blast
    have "findLCA_parents1 d (p # ps) (q, dist) = (q @ (p # new), dist')"
      using True r by simp
    moreover have "dom dist' = dom dist \<union> set (p # new)" using dm by auto
    moreover have "distinct (p # new)" using d n by auto
    moreover have "set (p # new) = set (p # ps) - dom dist" using n nin by auto
    ultimately show ?thesis by blast
  qed
qed

lemma isAncestor_step_succ:
  assumes "fst s \<noteq> []"
  shows "bfs_succ (store_universe fs op) (fst s, fst (snd s))
           (fst (isAncestor_step fs op a s), fst (snd (isAncestor_step fs op a s)))"
proof -
  obtain q vis f where s: "s = (q, vis, f)" by (cases s) auto
  with assms obtain cur rest where q: "q = cur # rest" by (cases q) auto
  let ?c = "loadFromObjectStore fs op cur"
  show ?thesis
  proof (cases "isValid ?c")
    case False
    then have "isAncestor_step fs op a s = (rest, vis, f)"
      by (simp add: isAncestor_step_def s q)
    then show ?thesis by (simp add: bfs_succ_def s q)
  next
    case True
    from isAncestor_parents_shape [of a "parents ?c" rest vis f] obtain new f' where
      r: "isAncestor_parents a (parents ?c) (rest, vis, f) = (rest @ new, vis \<union> set new, f')"
      and d: "distinct new" "set new \<inter> vis = {}" "set new \<subseteq> set (parents ?c)" by blast
    have "isAncestor_step fs op a s = (rest @ new, vis \<union> set new, f')"
      using True r by (simp add: isAncestor_step_def s q)
    moreover have "set new \<subseteq> store_universe fs op"
      using d(3) parents_in_universe [of fs op cur] by blast
    ultimately show ?thesis using d by (auto simp: bfs_succ_def s q)
  qed
qed

lemma findLCA_step1_succ:
  assumes "fst s \<noteq> []"
  shows "bfs_succ (store_universe fs op) (fst s, dom (snd s))
           (fst (findLCA_step1 fs op s), dom (snd (findLCA_step1 fs op s)))"
proof -
  obtain q dist where s: "s = (q, dist)" by (cases s) auto
  with assms obtain cur rest where q: "q = cur # rest" by (cases q) auto
  let ?c = "loadFromObjectStore fs op cur"
  show ?thesis
  proof (cases "isValid ?c")
    case False
    then have "findLCA_step1 fs op s = (rest, dist)"
      by (simp add: findLCA_step1_def s q)
    then show ?thesis by (simp add: bfs_succ_def s q)
  next
    case True
    from findLCA_parents1_shape [of "case dist cur of None \<Rightarrow> 0 | Some d \<Rightarrow> d" "parents ?c" rest dist]
    obtain new dist' where
      r: "findLCA_parents1 (case dist cur of None \<Rightarrow> 0 | Some d \<Rightarrow> d) (parents ?c) (rest, dist) = (rest @ new, dist')"
      and d: "dom dist' = dom dist \<union> set new" "distinct new" "set new = set (parents ?c) - dom dist"
      by blast
    have "findLCA_step1 fs op s = (rest @ new, dist')"
      using True r by (simp add: findLCA_step1_def s q)
    moreover have "set new \<subseteq> store_universe fs op"
      using d(3) parents_in_universe [of fs op cur] by blast
    ultimately show ?thesis using d by (auto simp: bfs_succ_def s q)
  qed
qed

lemma findLCA_step2_succ:
  assumes "fst s \<noteq> []"
  shows "bfs_succ (store_universe fs op) (fst s, fst (snd s))
           (fst (findLCA_step2 fs op dist1 s), fst (snd (findLCA_step2 fs op dist1 s)))"
proof -
  obtain q vis r where s: "s = (q, vis, r)" by (cases s) auto
  with assms obtain cur rest where q: "q = cur # rest" by (cases q) auto
  let ?c = "loadFromObjectStore fs op cur"
  show ?thesis
  proof (cases "dist1 cur \<noteq> None \<or> \<not> isValid ?c")
    case True
    then have "fst (findLCA_step2 fs op dist1 s) = rest \<and> fst (snd (findLCA_step2 fs op dist1 s)) = vis"
      by (auto simp: findLCA_step2_def s q)
    then show ?thesis by (simp add: bfs_succ_def s q)
  next
    case False
    from findLCA_parents2_shape [of "parents ?c" rest vis] obtain new where
      r: "findLCA_parents2 (parents ?c) (rest, vis) = (rest @ new, vis \<union> set new)"
      and d: "distinct new" "set new = set (parents ?c) - vis" by blast
    have "findLCA_step2 fs op dist1 s = (rest @ new, vis \<union> set new, None)"
      using False r by (simp add: findLCA_step2_def s q Let_def)
    moreover have "set new \<subseteq> store_universe fs op"
      using d(2) parents_in_universe [of fs op cur] by blast
    ultimately show ?thesis using d by (auto simp: bfs_succ_def s q)
  qed
qed

lemma isAncestor_loop_terminates:
  "\<exists>t. while_option isAncestor_running (isAncestor_step fs op a) s = Some t"
proof (rule measure_while_option_Some
    [where P = "\<lambda>_. True" and f = "\<lambda>s. bfs_measure (store_universe fs op) (fst s, fst (snd s))"])
  fix s :: anc_state
  assume "isAncestor_running s"
  then have "fst s \<noteq> []" by (simp add: isAncestor_running_def)
  from bfs_succ_measure [OF finite_store_universe isAncestor_step_succ [OF this]]
  show "True \<and> bfs_measure (store_universe fs op)
            (fst (isAncestor_step fs op a s), fst (snd (isAncestor_step fs op a s)))
          < bfs_measure (store_universe fs op) (fst s, fst (snd s))"
    by simp
qed simp

lemma isAncestor_terminates: "\<exists>b. isAncestor fs op a d = Some b"
  using isAncestor_loop_terminates [of fs op a "([d], {d}, False)"]
  by (auto simp: isAncestor_def)

lemma findLCA_loop1_terminates:
  "\<exists>t. while_option (\<lambda>s. fst s \<noteq> []) (findLCA_step1 fs op) s = Some t"
proof (rule measure_while_option_Some
    [where P = "\<lambda>_. True" and f = "\<lambda>s. bfs_measure (store_universe fs op) (fst s, dom (snd s))"])
  fix s :: dist_state
  assume "fst s \<noteq> []"
  from bfs_succ_measure [OF finite_store_universe findLCA_step1_succ [OF this]]
  show "True \<and> bfs_measure (store_universe fs op)
            (fst (findLCA_step1 fs op s), dom (snd (findLCA_step1 fs op s)))
          < bfs_measure (store_universe fs op) (fst s, dom (snd s))"
    by simp
qed simp

lemma findLCA_dist1_terminates: "\<exists>m. findLCA_dist1 fs op x = Some m"
  using findLCA_loop1_terminates [of fs op "([x], [x \<mapsto> 0])"]
  by (auto simp: findLCA_dist1_def)

lemma findLCA_loop2_terminates:
  "\<exists>t. while_option findLCA_running2 (findLCA_step2 fs op dist1) s = Some t"
proof (rule measure_while_option_Some
    [where P = "\<lambda>_. True" and f = "\<lambda>s. bfs_measure (store_universe fs op) (fst s, fst (snd s))"])
  fix s :: lca_state
  assume "findLCA_running2 s"
  then have "fst s \<noteq> []" by (simp add: findLCA_running2_def)
  from bfs_succ_measure [OF finite_store_universe findLCA_step2_succ [OF this]]
  show "True \<and> bfs_measure (store_universe fs op)
            (fst (findLCA_step2 fs op dist1 s), fst (snd (findLCA_step2 fs op dist1 s)))
          < bfs_measure (store_universe fs op) (fst s, fst (snd s))"
    by simp
qed simp

lemma findLCA_terminates: "\<exists>h. findLCA fs op x y = Some h"
proof -
  obtain m where m: "findLCA_dist1 fs op x = Some m"
    using findLCA_dist1_terminates by blast
  obtain t where "while_option findLCA_running2 (findLCA_step2 fs op m) ([y], {y}, None) = Some t"
    using findLCA_loop2_terminates by blast
  with m show ?thesis by (simp add: findLCA_def)
qed


lemma skip_invalid:
  assumes "\<not> isValid (loadFromObjectStore fs op h)"
  shows "isAncestor_step fs op a (h # q, vis, found) = (q, vis, found)"
    and "findLCA_step1 fs op (h # q, dist) = (q, dist)"
    and "dist1 h = None \<Longrightarrow> findLCA_step2 fs op dist1 (h # q, vis, None) = (q, vis, None)"
  using assms by (simp_all add: isAncestor_step_def findLCA_step1_def findLCA_step2_def)

lemma ancestors_self: "x \<in> ancestors fs op x"
  by (simp add: ancestors_def)

lemma ancestors_step:
  "c \<in> ancestors fs op x \<Longrightarrow> (c, p) \<in> parent_edges fs op \<Longrightarrow> p \<in> ancestors fs op x"
  by (auto simp: ancestors_def intro: rtrancl_into_rtrancl)

lemma closed_contains_ancestors:
  assumes "x \<in> S" and "\<And>c p. c \<in> S \<Longrightarrow> (c, p) \<in> parent_edges fs op \<Longrightarrow> p \<in> S"
  shows "ancestors fs op x \<subseteq> S"
proof
  fix h assume "h \<in> ancestors fs op x"
  then have "(x, h) \<in> (parent_edges fs op)\<^sup>*" by (simp add: ancestors_def)
  then show "h \<in> S"
    by (induction rule: rtrancl_induct) (auto intro: assms)
qed

section \<open>Termination of the ancestry walks\<close>

subsection \<open>The walks whose loads return\<close>

text \<open>
  \<open>isAncestor\<close> and \<open>findLCA\<close> are the walks in which every \<open>Utils::readFile\<close>
  returns. On every file system (a finite store, whatever its objects hold: cycles among
  the parents, parents without an object) they have a value. In each of the three loops,
  no commit is taken from the queue in two different rounds. An object that does not
  load (missing or empty, \<open>isValid\<close> false) is taken from the queue and adds nothing to
  it.
\<close>

theorem walks_without_exception_terminate:
  "(\<exists>b. isAncestor fs op a d = Some b)
   \<and> (\<exists>h. findLCA fs op x y = Some h)
   \<and> (i < j \<and> runs_for isAncestor_running (isAncestor_step fs op a) ([d], {d}, False) j \<longrightarrow>
        dequeued (isAncestor_step fs op a) fst ([d], {d}, False) i
        \<noteq> dequeued (isAncestor_step fs op a) fst ([d], {d}, False) j)
   \<and> (i < j \<and> runs_for (\<lambda>s. fst s \<noteq> []) (findLCA_step1 fs op) ([x1], [x1 \<mapsto> 0]) j \<longrightarrow>
        dequeued (findLCA_step1 fs op) fst ([x1], [x1 \<mapsto> 0]) i
        \<noteq> dequeued (findLCA_step1 fs op) fst ([x1], [x1 \<mapsto> 0]) j)
   \<and> (i < j \<and> runs_for findLCA_running2 (findLCA_step2 fs op dist1) ([y2], {y2}, None) j \<longrightarrow>
        dequeued (findLCA_step2 fs op dist1) fst ([y2], {y2}, None) i
        \<noteq> dequeued (findLCA_step2 fs op dist1) fst ([y2], {y2}, None) j)
   \<and> (\<not> isValid (loadFromObjectStore fs op h) \<longrightarrow>
        isAncestor_step fs op a (h # q, vis, found) = (q, vis, found)
        \<and> findLCA_step1 fs op (h # q, dist) = (q, dist)
        \<and> (dist2 h = None \<longrightarrow> findLCA_step2 fs op dist2 (h # q, vis, None) = (q, vis, None)))"
proof -
  have 1: "dequeued (isAncestor_step fs op a) fst ([d], {d}, False) i
        \<noteq> dequeued (isAncestor_step fs op a) fst ([d], {d}, False) j"
    if "i < j" "runs_for isAncestor_running (isAncestor_step fs op a) ([d], {d}, False) j"
    unfolding dequeued_def
    using bfs_visit_once [where b = isAncestor_running and c = "isAncestor_step fs op a"
        and proj = "\<lambda>s. (fst s, fst (snd s))" and U = "store_universe fs op"
        and ?s0.0 = "([d], {d}, False)" and i = i and j = j] that
    by (simp add: isAncestor_step_succ isAncestor_running_def)
  have 2: "dequeued (findLCA_step1 fs op) fst ([x1], [x1 \<mapsto> 0]) i
        \<noteq> dequeued (findLCA_step1 fs op) fst ([x1], [x1 \<mapsto> 0]) j"
    if "i < j" "runs_for (\<lambda>s. fst s \<noteq> []) (findLCA_step1 fs op) ([x1], [x1 \<mapsto> 0]) j"
    unfolding dequeued_def
    using bfs_visit_once [where b = "\<lambda>s. fst s \<noteq> []" and c = "findLCA_step1 fs op"
        and proj = "\<lambda>s. (fst s, dom (snd s))" and U = "store_universe fs op"
        and ?s0.0 = "([x1], [x1 \<mapsto> 0])" and i = i and j = j] that
    by (simp add: findLCA_step1_succ)
  have 3: "dequeued (findLCA_step2 fs op dist1) fst ([y2], {y2}, None) i
        \<noteq> dequeued (findLCA_step2 fs op dist1) fst ([y2], {y2}, None) j"
    if "i < j" "runs_for findLCA_running2 (findLCA_step2 fs op dist1) ([y2], {y2}, None) j"
    unfolding dequeued_def
    using bfs_visit_once [where b = findLCA_running2 and c = "findLCA_step2 fs op dist1"
        and proj = "\<lambda>s. (fst s, fst (snd s))" and U = "store_universe fs op"
        and ?s0.0 = "([y2], {y2}, None)" and i = i and j = j] that
    by (simp add: findLCA_step2_succ findLCA_running2_def)
  show ?thesis
    using isAncestor_terminates [of fs op a d] findLCA_terminates [of fs op x y] 1 2 3
      skip_invalid [of fs op h]
    by blast
qed

text \<open>The three walks on the cyclic store, and the missing object \<open>M\<close>.\<close>

theorem walks_without_exception_example:
  "isAncestor store_cyclic objectsDir ''Z'' ''A'' = Some False
   \<and> findLCA store_cyclic objectsDir ''M'' ''A'' = Some ''M''
   \<and> (0::nat) < 2
   \<and> runs_for isAncestor_running (isAncestor_step store_cyclic objectsDir ''Z'') ([''A''], {''A''}, False) 2
   \<and> dequeued (isAncestor_step store_cyclic objectsDir ''Z'') fst ([''A''], {''A''}, False) 0
       \<noteq> dequeued (isAncestor_step store_cyclic objectsDir ''Z'') fst ([''A''], {''A''}, False) 2
   \<and> runs_for (\<lambda>s. fst s \<noteq> []) (findLCA_step1 store_cyclic objectsDir) ([''A''], [''A'' \<mapsto> 0]) 2
   \<and> dequeued (findLCA_step1 store_cyclic objectsDir) fst ([''A''], [''A'' \<mapsto> 0]) 0
       \<noteq> dequeued (findLCA_step1 store_cyclic objectsDir) fst ([''A''], [''A'' \<mapsto> 0]) 2
   \<and> runs_for findLCA_running2 (findLCA_step2 store_cyclic objectsDir [''M'' \<mapsto> 0]) ([''A''], {''A''}, None) 2
   \<and> dequeued (findLCA_step2 store_cyclic objectsDir [''M'' \<mapsto> 0]) fst ([''A''], {''A''}, None) 0
       \<noteq> dequeued (findLCA_step2 store_cyclic objectsDir [''M'' \<mapsto> 0]) fst ([''A''], {''A''}, None) 2
   \<and> \<not> isValid (loadFromObjectStore store_cyclic objectsDir ''M'')
   \<and> isAncestor_step store_cyclic objectsDir ''Z'' ([''M''], {''A'', ''B'', ''M''}, False)
       = ([], {''A'', ''B'', ''M''}, False)
   \<and> findLCA_step1 store_cyclic objectsDir ([''M''], [''A'' \<mapsto> 0]) = ([], [''A'' \<mapsto> 0])
   \<and> [''A'' \<mapsto> (0::int)] ''M'' = None
   \<and> findLCA_step2 store_cyclic objectsDir [''A'' \<mapsto> 0] ([''M''], {''A'', ''B'', ''M''}, None)
       = ([], {''A'', ''B'', ''M''}, None)"
proof -
  have a: "isAncestor store_cyclic objectsDir ''Z'' ''A'' = Some False"
    by (simp add: store_cyclic_def eval_simps)
  have l: "findLCA store_cyclic objectsDir ''M'' ''A'' = Some ''M''"
    by (simp add: store_cyclic_def eval_simps)
  have r1: "runs_for isAncestor_running (isAncestor_step store_cyclic objectsDir ''Z'') ([''A''], {''A''}, False) 2"
    by (simp add: store_cyclic_def eval_simps funpow_eval)
  have r2: "runs_for (\<lambda>s. fst s \<noteq> []) (findLCA_step1 store_cyclic objectsDir) ([''A''], [''A'' \<mapsto> 0]) 2"
    by (simp add: store_cyclic_def eval_simps funpow_eval)
  have r3: "runs_for findLCA_running2 (findLCA_step2 store_cyclic objectsDir [''M'' \<mapsto> 0]) ([''A''], {''A''}, None) 2"
    by (simp add: store_cyclic_def eval_simps funpow_eval)
  have v: "\<not> isValid (loadFromObjectStore store_cyclic objectsDir ''M'')"
    by (simp add: store_cyclic_def eval_simps)
  have n: "[''A'' \<mapsto> (0::int)] ''M'' = None" by simp
  have z: "(0::nat) < 2" by simp
  note T = walks_without_exception_terminate [of store_cyclic objectsDir "''Z''" "''A''" "''M''" "''A''" 0 2
      "''A''" "[''M'' \<mapsto> 0]" "''A''" "''M''" "[]" "{''A'', ''B'', ''M''}" False "[''A'' \<mapsto> 0]"
      "[''A'' \<mapsto> 0]"]
  from T z r1 have t1: "dequeued (isAncestor_step store_cyclic objectsDir ''Z'') fst ([''A''], {''A''}, False) 0
       \<noteq> dequeued (isAncestor_step store_cyclic objectsDir ''Z'') fst ([''A''], {''A''}, False) 2"
    by blast
  from T z r2 have t2: "dequeued (findLCA_step1 store_cyclic objectsDir) fst ([''A''], [''A'' \<mapsto> 0]) 0
       \<noteq> dequeued (findLCA_step1 store_cyclic objectsDir) fst ([''A''], [''A'' \<mapsto> 0]) 2"
    by blast
  from T z r3 have t3: "dequeued (findLCA_step2 store_cyclic objectsDir [''M'' \<mapsto> 0]) fst ([''A''], {''A''}, None) 0
       \<noteq> dequeued (findLCA_step2 store_cyclic objectsDir [''M'' \<mapsto> 0]) fst ([''A''], {''A''}, None) 2"
    by blast
  from T v n have t4: "isAncestor_step store_cyclic objectsDir ''Z'' ([''M''], {''A'', ''B'', ''M''}, False)
       = ([], {''A'', ''B'', ''M''}, False)"
    "findLCA_step1 store_cyclic objectsDir ([''M''], [''A'' \<mapsto> 0]) = ([], [''A'' \<mapsto> 0])"
    "findLCA_step2 store_cyclic objectsDir [''A'' \<mapsto> 0] ([''M''], {''A'', ''B'', ''M''}, None)
       = ([], {''A'', ''B'', ''M''}, None)"
    by blast+
  show ?thesis
    by (intro conjI a l z r1 r2 r3 t1 t2 t3 v t4 n)
qed

subsection \<open>The walks with the exception\<close>

text \<open>
  A loop whose rounds may throw ends when its rounds without the exception decrease a
  measure; when it ends with a state, the loop without the exception ends with the same
  state; and when no round throws, the two loops are the same.
\<close>

lemma exn_loop_terminates:
  fixes m :: "'s \<Rightarrow> nat"
  assumes step: "\<And>s. b s \<Longrightarrow> c s = Inl IosFailure \<or> (c s = Inr (c0 s) \<and> m (c0 s) < m s)"
  shows "\<exists>r. while_option (exn_running b) (exn_step c) (Inr s0) = Some r"
proof -
  show ?thesis
  proof (rule measure_while_option_Some
      [where P = "\<lambda>_. True" and f = "\<lambda>r. case r of Inl e \<Rightarrow> 0 | Inr s \<Rightarrow> Suc (m s)"])
    fix r :: "exn + 's"
    assume r: "exn_running b r"
    then obtain s where s: "r = Inr s" "b s" by (cases r) (auto simp: exn_running_def)
    from step [OF s(2)]
    show "True \<and> (case exn_step c r of Inl e \<Rightarrow> 0 | Inr s \<Rightarrow> Suc (m s))
            < (case r of Inl e \<Rightarrow> 0 | Inr s \<Rightarrow> Suc (m s))"
      by (auto simp: exn_step_def s)
  qed simp
qed

lemma exn_loop_thrown: "while_option (exn_running b) (exn_step c) (Inl e) = Some (Inl e)"
  by (subst while_option_unfold) (simp add: exn_running_def)

lemma exn_loop_agrees:
  assumes step: "\<And>s. b s \<Longrightarrow> c s = Inl IosFailure \<or> c s = Inr (c0 s)"
    and run: "while_option (exn_running b) (exn_step c) (Inr s0) = Some (Inr t)"
  shows "while_option b c0 s0 = Some t"
proof -
  let ?P = "\<lambda>s. while_option (exn_running b) (exn_step c) (Inr s) = Some (Inr t)"
  have nxt: "c s = Inr (c0 s) \<and> ?P (c0 s)" if "?P s" "b s" for s
  proof -
    have u: "while_option (exn_running b) (exn_step c) (c s) = Some (Inr t)"
      using that by (subst (asm) while_option_unfold) (simp add: exn_running_def exn_step_def)
    have "c s \<noteq> Inl IosFailure"
    proof
      assume "c s = Inl IosFailure"
      with u show False by (simp add: exn_loop_thrown)
    qed
    with step [OF that(2)] have "c s = Inr (c0 s)" by blast
    with u show ?thesis by simp
  qed
  have "map_option Inr (while_option b c0 s0) = while_option (exn_running b) (exn_step c) (Inr s0)"
  proof (rule while_option_commute_invariant [where P = ?P])
    fix s assume "?P s" "b s"
    then show "?P (c0 s)" using nxt by blast
  next
    fix s assume "?P s"
    show "b s = exn_running b (Inr s)" by (simp add: exn_running_def)
  next
    fix s assume "?P s" "b s"
    then show "Inr (c0 s) = exn_step c (Inr s)" using nxt by (simp add: exn_step_def)
  next
    show "?P s0" by (rule run)
  qed
  with run show ?thesis by auto
qed

lemma exn_loop_no_throw:
  assumes step: "\<And>s. b s \<Longrightarrow> c s = Inr (c0 s)"
  shows "while_option (exn_running b) (exn_step c) (Inr s0) = map_option Inr (while_option b c0 s0)"
proof -
  have "map_option Inr (while_option b c0 s0) = while_option (exn_running b) (exn_step c) (Inr s0)"
    by (rule while_option_commute_invariant [where P = "\<lambda>_. True"])
       (simp_all add: exn_running_def exn_step_def step)
  then show ?thesis by simp
qed

lemma isAncestor_step_exn_cases:
  "isAncestor_step_exn fs op a s =
     (if fst s \<noteq> [] \<and> readFile_throws fs (pjoin op (hd (fst s))) then Inl IosFailure
      else Inr (isAncestor_step fs op a s))"
  by (simp add: isAncestor_step_exn_def isAncestor_step_def loadFromObjectStore_exn_def Let_def
      split: list.splits)

lemma findLCA_step1_exn_cases:
  "findLCA_step1_exn fs op s =
     (if fst s \<noteq> [] \<and> readFile_throws fs (pjoin op (hd (fst s))) then Inl IosFailure
      else Inr (findLCA_step1 fs op s))"
  by (simp add: findLCA_step1_exn_def findLCA_step1_def loadFromObjectStore_exn_def Let_def
      split: list.splits)

lemma findLCA_step2_exn_cases:
  "findLCA_step2_exn fs op dist1 s =
     (if fst s \<noteq> [] \<and> dist1 (hd (fst s)) = None \<and> readFile_throws fs (pjoin op (hd (fst s)))
      then Inl IosFailure
      else Inr (findLCA_step2 fs op dist1 s))"
  by (simp add: findLCA_step2_exn_def findLCA_step2_def loadFromObjectStore_exn_def Let_def
      split: list.splits)

text \<open>
  Every walk ends, with a value or with the exception. A value is the value of the walk
  whose loads return. Where no name joined to the object store gives a directory, no
  walk throws.
\<close>

lemma isAncestor_exn_ends: "\<exists>r. isAncestor_exn fs op a d = Some r"
proof -
  have "\<exists>r. while_option (exn_running isAncestor_running) (exn_step (isAncestor_step_exn fs op a))
          (Inr ([d], {d}, False)) = Some r"
  proof (rule exn_loop_terminates
      [where ?c0.0 = "isAncestor_step fs op a"
         and m = "\<lambda>s. bfs_measure (store_universe fs op) (fst s, fst (snd s))"])
    fix s :: anc_state
    assume "isAncestor_running s"
    then have ne: "fst s \<noteq> []" by (simp add: isAncestor_running_def)
    from bfs_succ_measure [OF finite_store_universe isAncestor_step_succ [OF ne]]
    show "isAncestor_step_exn fs op a s = Inl IosFailure
          \<or> (isAncestor_step_exn fs op a s = Inr (isAncestor_step fs op a s)
              \<and> bfs_measure (store_universe fs op)
                    (fst (isAncestor_step fs op a s), fst (snd (isAncestor_step fs op a s)))
                  < bfs_measure (store_universe fs op) (fst s, fst (snd s)))"
      by (simp add: isAncestor_step_exn_cases)
  qed
  then show ?thesis by (auto simp: isAncestor_exn_def)
qed

lemma findLCA_loop1_exn_ends:
  "\<exists>r. while_option (exn_running (\<lambda>s. fst s \<noteq> [])) (exn_step (findLCA_step1_exn fs op)) (Inr s0)
        = Some r"
proof (rule exn_loop_terminates
    [where ?c0.0 = "findLCA_step1 fs op"
       and m = "\<lambda>s. bfs_measure (store_universe fs op) (fst s, dom (snd s))"])
  fix s :: dist_state
  assume ne: "fst s \<noteq> []"
  from bfs_succ_measure [OF finite_store_universe findLCA_step1_succ [OF ne]]
  show "findLCA_step1_exn fs op s = Inl IosFailure
        \<or> (findLCA_step1_exn fs op s = Inr (findLCA_step1 fs op s)
            \<and> bfs_measure (store_universe fs op)
                  (fst (findLCA_step1 fs op s), dom (snd (findLCA_step1 fs op s)))
                < bfs_measure (store_universe fs op) (fst s, dom (snd s)))"
    by (simp add: findLCA_step1_exn_cases)
qed

lemma findLCA_loop2_exn_ends:
  "\<exists>r. while_option (exn_running findLCA_running2) (exn_step (findLCA_step2_exn fs op dist1)) (Inr s0)
        = Some r"
proof (rule exn_loop_terminates
    [where ?c0.0 = "findLCA_step2 fs op dist1"
       and m = "\<lambda>s. bfs_measure (store_universe fs op) (fst s, fst (snd s))"])
  fix s :: lca_state
  assume "findLCA_running2 s"
  then have ne: "fst s \<noteq> []" by (simp add: findLCA_running2_def)
  from bfs_succ_measure [OF finite_store_universe findLCA_step2_succ [OF ne]]
  show "findLCA_step2_exn fs op dist1 s = Inl IosFailure
        \<or> (findLCA_step2_exn fs op dist1 s = Inr (findLCA_step2 fs op dist1 s)
            \<and> bfs_measure (store_universe fs op)
                  (fst (findLCA_step2 fs op dist1 s), fst (snd (findLCA_step2 fs op dist1 s)))
                < bfs_measure (store_universe fs op) (fst s, fst (snd s)))"
    by (simp add: findLCA_step2_exn_cases)
qed

lemma findLCA_exn_ends: "\<exists>r. findLCA_exn fs op x y = Some r"
proof -
  obtain r1 where r1: "while_option (exn_running (\<lambda>s. fst s \<noteq> []))
      (exn_step (findLCA_step1_exn fs op)) (Inr ([x], [x \<mapsto> 0])) = Some r1"
    using findLCA_loop1_exn_ends by blast
  show ?thesis
  proof (cases r1)
    case (Inl e)
    with r1 show ?thesis by (simp add: findLCA_exn_def findLCA_dist1_exn_def)
  next
    case (Inr t)
    obtain r2 where r2: "while_option (exn_running findLCA_running2)
        (exn_step (findLCA_step2_exn fs op (snd t))) (Inr ([y], {y}, None)) = Some r2"
      using findLCA_loop2_exn_ends by blast
    with r1 Inr show ?thesis
      by (cases r2) (simp_all add: findLCA_exn_def findLCA_dist1_exn_def)
  qed
qed

lemma map_sum_id_Inr: "map_sum id f r = Inr v \<longleftrightarrow> (\<exists>t. r = Inr t \<and> v = f t)"
  by (cases r) auto

lemma isAncestor_exn_value:
  assumes "isAncestor_exn fs op a d = Some (Inr b)"
  shows "isAncestor fs op a d = Some b"
proof (cases "a = [] \<or> d = [] \<or> a = d")
  case True
  with assms show ?thesis by (auto simp: isAncestor_exn_def isAncestor_def)
next
  case False
  with assms obtain t where
    t: "while_option (exn_running isAncestor_running) (exn_step (isAncestor_step_exn fs op a))
          (Inr ([d], {d}, False)) = Some (Inr t)" and b: "b = snd (snd t)"
    by (auto simp: isAncestor_exn_def map_sum_id_Inr)
  have "while_option isAncestor_running (isAncestor_step fs op a) ([d], {d}, False) = Some t"
    by (rule exn_loop_agrees [OF _ t]) (simp add: isAncestor_step_exn_cases)
  with False b show ?thesis by (simp add: isAncestor_def)
qed

lemma findLCA_exn_value:
  assumes "findLCA_exn fs op x y = Some (Inr h)"
  shows "findLCA fs op x y = Some h"
proof (cases "x = [] \<or> y = [] \<or> x = y")
  case True
  with assms show ?thesis by (auto simp: findLCA_exn_def findLCA_def)
next
  case False
  from assms False obtain t1 where
    t1: "while_option (exn_running (\<lambda>s. fst s \<noteq> [])) (exn_step (findLCA_step1_exn fs op))
          (Inr ([x], [x \<mapsto> 0])) = Some (Inr t1)"
    and r: "(case while_option (exn_running findLCA_running2)
                    (exn_step (findLCA_step2_exn fs op (snd t1))) (Inr ([y], {y}, None)) of
               None \<Rightarrow> None
             | Some (Inl e) \<Rightarrow> Some (Inl e)
             | Some (Inr s2) \<Rightarrow> Some (Inr (case snd (snd s2) of None \<Rightarrow> [] | Some h \<Rightarrow> h)))
            = Some (Inr h)"
    by (auto simp: findLCA_exn_def findLCA_dist1_exn_def map_sum_id_Inr
        split: option.splits sum.splits)
  from r obtain t2 where
    t2: "while_option (exn_running findLCA_running2)
          (exn_step (findLCA_step2_exn fs op (snd t1))) (Inr ([y], {y}, None)) = Some (Inr t2)"
    and h: "h = (case snd (snd t2) of None \<Rightarrow> [] | Some h \<Rightarrow> h)"
    by (auto split: option.splits sum.splits)
  have 1: "while_option (\<lambda>s. fst s \<noteq> []) (findLCA_step1 fs op) ([x], [x \<mapsto> 0]) = Some t1"
    by (rule exn_loop_agrees [OF _ t1]) (simp add: findLCA_step1_exn_cases)
  have 2: "while_option findLCA_running2 (findLCA_step2 fs op (snd t1)) ([y], {y}, None) = Some t2"
    by (rule exn_loop_agrees [OF _ t2]) (simp add: findLCA_step2_exn_cases)
  from False 1 2 h show ?thesis by (simp add: findLCA_def findLCA_dist1_def)
qed

lemma walks_without_directory:
  assumes nd: "\<And>h. \<not> readFile_throws fs (pjoin op h)"
  shows "isAncestor_exn fs op a d = map_option Inr (isAncestor fs op a d)"
    and "findLCA_exn fs op x y = map_option Inr (findLCA fs op x y)"
proof -
  have 0: "while_option (exn_running isAncestor_running) (exn_step (isAncestor_step_exn fs op a)) (Inr s0)
      = map_option Inr (while_option isAncestor_running (isAncestor_step fs op a) s0)" for s0
    by (rule exn_loop_no_throw) (simp add: isAncestor_step_exn_cases nd)
  show "isAncestor_exn fs op a d = map_option Inr (isAncestor fs op a d)"
    by (simp add: isAncestor_exn_def isAncestor_def 0 option.map_comp o_def)
  have 1: "while_option (exn_running (\<lambda>s. fst s \<noteq> [])) (exn_step (findLCA_step1_exn fs op)) (Inr s0)
      = map_option Inr (while_option (\<lambda>s. fst s \<noteq> []) (findLCA_step1 fs op) s0)" for s0
    by (rule exn_loop_no_throw) (simp add: findLCA_step1_exn_cases nd)
  have 2: "while_option (exn_running findLCA_running2) (exn_step (findLCA_step2_exn fs op m)) (Inr s0)
      = map_option Inr (while_option findLCA_running2 (findLCA_step2 fs op m) s0)" for s0 m
    by (rule exn_loop_no_throw) (simp add: findLCA_step2_exn_cases nd)
  have 3: "findLCA_dist1_exn fs op x = map_option Inr (findLCA_dist1 fs op x)"
    by (simp add: findLCA_dist1_exn_def findLCA_dist1_def 1 option.map_comp o_def)
  show "findLCA_exn fs op x y = map_option Inr (findLCA fs op x y)"
    by (simp add: findLCA_exn_def findLCA_def 2 3 split: option.splits)
qed

text \<open>
  Claim C10. The claim has both walks return on every finite store, an object that is
  missing or does not parse adding no parent edges instead of aborting the walk. In
  \<open>store_directory_parent\<close> the commit \<open>A\<close> names the parents \<open>sub\<close> and \<open>B\<close>, and \<open>sub\<close>
  is a directory of the object store, so the read of \<open>.minigit/objects/sub\<close> throws.
  \<open>isAncestor(Z, A)\<close>, \<open>findLCA(A, B)\<close> and \<open>findLCA(B, A)\<close> each load \<open>A\<close>, take \<open>sub\<close>
  from the queue in the next round, and end there with \<open>std::ios_base::failure\<close>
  instead of a value: the object is not skipped, the walk is aborted.
\<close>

theorem ancestry_walk_aborts_on_directory:
  "readFile_throws store_directory_parent (pjoin objectsDir ''sub'')
   \<and> isAncestor_exn store_directory_parent objectsDir ''Z'' ''A'' = Some (Inl IosFailure)
   \<and> findLCA_exn store_directory_parent objectsDir ''A'' ''B'' = Some (Inl IosFailure)
   \<and> findLCA_exn store_directory_parent objectsDir ''B'' ''A'' = Some (Inl IosFailure)"
proof -
  have 1: "readFile_throws store_directory_parent (pjoin objectsDir ''sub'')"
    by (simp add: store_directory_parent_def eval_simps exn_simps)
  have 2: "isAncestor_exn store_directory_parent objectsDir ''Z'' ''A'' = Some (Inl IosFailure)"
    by (simp add: store_directory_parent_def eval_simps exn_simps)
  have 3: "findLCA_exn store_directory_parent objectsDir ''A'' ''B'' = Some (Inl IosFailure)"
    by (simp add: store_directory_parent_def eval_simps exn_simps)
  have 4: "findLCA_exn store_directory_parent objectsDir ''B'' ''A'' = Some (Inl IosFailure)"
    by (simp add: store_directory_parent_def eval_simps exn_simps)
  show ?thesis by (intro conjI 1 2 3 4)
qed
section \<open>What \<open>isAncestor\<close> decides\<close>

lemma isAncestor_parents_found:
  "a \<in> set ps \<Longrightarrow> snd (snd (isAncestor_parents a ps (q, vis, f)))"
  by (induction ps arbitrary: q vis) auto

lemma isAncestor_parents_missed:
  "a \<notin> set ps \<Longrightarrow>
   isAncestor_parents a ps (q, vis, f)
   = (fst (findLCA_parents2 ps (q, vis)), snd (findLCA_parents2 ps (q, vis)), f)"
  by (induction ps arbitrary: q vis) auto

lemma anc_inv_step:
  assumes inv: "anc_inv fs op a d s" and run: "isAncestor_running s"
  shows "anc_inv fs op a d (isAncestor_step fs op a s)"
proof -
  obtain q vis f where s: "s = (q, vis, f)" by (cases s) auto
  from run have f: "\<not> f" and "q \<noteq> []" by (simp_all add: isAncestor_running_def s)
  then obtain cur rest where q: "q = cur # rest" by (cases q) auto
  let ?c = "loadFromObjectStore fs op cur"
  from inv f have i: "d \<in> vis" "set (cur # rest) \<subseteq> vis" "vis \<subseteq> ancestors fs op d" "a \<notin> vis"
    "\<And>c p. c \<in> vis \<Longrightarrow> c \<notin> set (cur # rest) \<Longrightarrow> (c, p) \<in> parent_edges fs op \<Longrightarrow> p \<in> vis"
    unfolding anc_inv_def s q by auto
  have curv: "cur \<in> vis" and restv: "set rest \<subseteq> vis" using i(2) by simp_all
  have cura: "cur \<in> ancestors fs op d" using curv i(3) by auto
  show ?thesis
  proof (cases "isValid ?c")
    case False
    then have t: "isAncestor_step fs op a s = (rest, vis, f)"
      by (simp add: isAncestor_step_def s q)
    have ne: "\<And>p. (cur, p) \<notin> parent_edges fs op" using False by (simp add: parent_edges_def)
    have c2: "p \<in> vis" if "c \<in> vis" "c \<notin> set rest" "(c, p) \<in> parent_edges fs op" for c p
      using that i(5) [of c p] ne by (cases "c = cur") auto
    show ?thesis unfolding t anc_inv_def fst_conv snd_conv
      using i(1,3,4) restv c2 f by auto
  next
    case True
    have edges: "\<And>p. (cur, p) \<in> parent_edges fs op \<longleftrightarrow> p \<in> set (parents ?c)"
      using True by (simp add: parent_edges_def)
    have st: "isAncestor_step fs op a s = isAncestor_parents a (parents ?c) (rest, vis, f)"
      using True by (simp add: isAncestor_step_def s q)
    from isAncestor_parents_shape [of a "parents ?c" rest vis f] obtain new f' where
      r: "isAncestor_parents a (parents ?c) (rest, vis, f) = (rest @ new, vis \<union> set new, f')"
      and n: "set new \<subseteq> set (parents ?c)" by blast
    have newa: "set new \<subseteq> ancestors fs op d"
      using n edges ancestors_step [OF cura] by auto
    have base: "d \<in> vis \<union> set new" "set (rest @ new) \<subseteq> vis \<union> set new"
      "vis \<union> set new \<subseteq> ancestors fs op d"
      using i(1,3) restv newa by auto
    show ?thesis
    proof (cases "a \<in> set (parents ?c)")
      case True
      then have "f'" using isAncestor_parents_found [OF True, of rest vis f] r by simp
      moreover have "a \<in> ancestors fs op d"
        using True edges ancestors_step [OF cura] by auto
      ultimately show ?thesis unfolding st r anc_inv_def fst_conv snd_conv
        using base by simp
    next
      case False
      from findLCA_parents2_shape [of "parents ?c" rest vis] obtain new2 where
        p2: "findLCA_parents2 (parents ?c) (rest, vis) = (rest @ new2, vis \<union> set new2)"
        and d2: "set new2 = set (parents ?c) - vis" by blast
      have r2: "isAncestor_parents a (parents ?c) (rest, vis, f) = (rest @ new2, vis \<union> set new2, f)"
        using isAncestor_parents_missed [OF False, of rest vis f] p2 by simp
      have new2a: "set new2 \<subseteq> ancestors fs op d"
        using d2 edges ancestors_step [OF cura] by auto
      have an: "a \<notin> vis \<union> set new2" using i(4) d2 False by auto
      have c2: "p \<in> vis \<union> set new2" if "c \<in> vis \<union> set new2" "c \<notin> set (rest @ new2)"
        "(c, p) \<in> parent_edges fs op" for c p
      proof (cases "c = cur")
        case True
        with that(3) edges have "p \<in> set (parents ?c)" by simp
        then show ?thesis using d2 by auto
      next
        case False
        with that have "c \<in> vis" "c \<notin> set (cur # rest)" by auto
        from i(5) [OF this that(3)] show ?thesis by simp
      qed
      have "d \<in> vis \<union> set new2" using i(1) by simp
      moreover have "set (rest @ new2) \<subseteq> vis \<union> set new2" using restv by auto
      moreover have "vis \<union> set new2 \<subseteq> ancestors fs op d" using i(3) new2a by simp
      ultimately show ?thesis unfolding st r2 anc_inv_def fst_conv snd_conv
        using an c2 f by auto
    qed
  qed
qed

text \<open>
  \<open>isAncestor\<close> decides reachability: it returns, and its answer is that both digests
  are non-empty and the first is the second or is reached from it along parent edges.
\<close>

theorem isAncestor_reachability:
  "isAncestor fs op a d = Some (a \<noteq> [] \<and> d \<noteq> [] \<and> a \<in> ancestors fs op d)"
proof (cases "a = [] \<or> d = []")
  case True
  then show ?thesis by (auto simp: isAncestor_def)
next
  case ne: False
  show ?thesis
  proof (cases "a = d")
    case True
    with ne show ?thesis by (simp add: isAncestor_def ancestors_self)
  next
    case False
    obtain t where w: "while_option isAncestor_running (isAncestor_step fs op a) ([d], {d}, False) = Some t"
      using isAncestor_loop_terminates by blast
    have init: "anc_inv fs op a d ([d], {d}, False)"
      using False by (simp add: anc_inv_def ancestors_self)
    have inv: "anc_inv fs op a d t"
      by (rule while_option_rule [where P = "anc_inv fs op a d", OF _ w init]) (rule anc_inv_step)
    have stop: "\<not> isAncestor_running t" by (rule while_option_stop [OF w])
    have "snd (snd t) \<longleftrightarrow> a \<in> ancestors fs op d"
    proof (cases "snd (snd t)")
      case True
      with inv show ?thesis by (simp add: anc_inv_def)
    next
      case nf: False
      with stop have e: "fst t = []" by (simp add: isAncestor_running_def)
      from inv nf e have cl: "d \<in> fst (snd t)" "a \<notin> fst (snd t)"
        "\<And>c p. c \<in> fst (snd t) \<Longrightarrow> (c, p) \<in> parent_edges fs op \<Longrightarrow> p \<in> fst (snd t)"
        by (auto simp: anc_inv_def)
      have "ancestors fs op d \<subseteq> fst (snd t)"
        by (rule closed_contains_ancestors [OF cl(1)]) (rule cl(3))
      with cl(2) nf show ?thesis by auto
    qed
    with ne False w show ?thesis by (simp add: isAncestor_def)
  qed
qed

section \<open>What \<open>findLCA\<close> returns\<close>














section \<open>A merge that ends in conflicts\<close>








section \<open>The digest of a commit\<close>

text \<open>
  Claim C1 says that the digest a commit is stored under is the digest of its serialized
  body. \<open>merge\<close> (as \<open>commit\<close> does) sets the digest from message, author and time stamp
  before it saves, and \<open>saveToObjectStore\<close> computes one from the body only when none is
  set. On \<open>repo_diverged\<close> the merge commit is stored under the digest of its three
  header strings, which is not the digest of the body stored there.
\<close>

theorem merge_commit_digest_from_headers:
  "merge repo_diverged ''2024-01-04 10:00:00'' ''feature''
     = Some (Inr (MergeCommitted ''7357489029210604552_temp_hash''), repo_diverged_merged)
   \<and> loadFromObjectStore repo_diverged_merged objectsDir ''7357489029210604552_temp_hash''
       = merge_commit_diverged
   \<and> readFile repo_diverged_merged (pjoin objectsDir ''7357489029210604552_temp_hash'')
       = commitContent merge_commit_diverged
   \<and> computeHash (message merge_commit_diverged @ author merge_commit_diverged
                    @ timestamp merge_commit_diverged) = ''7357489029210604552_temp_hash''
   \<and> computeHash (commitContent merge_commit_diverged) = ''16282218738940369415_temp_hash''"
proof -
  have m: "merge repo_diverged ''2024-01-04 10:00:00'' ''feature''
     = Some (Inr (MergeCommitted ''7357489029210604552_temp_hash''), repo_diverged_merged)"
    by (simp add: repo_diverged_def repo_diverged_merged_def merge_def eval_simps cong: let_weak_cong)
  have l: "loadFromObjectStore repo_diverged_merged objectsDir ''7357489029210604552_temp_hash''
       = merge_commit_diverged"
    by (simp add: repo_diverged_merged_def merge_commit_diverged_def eval_simps)
  have r: "readFile repo_diverged_merged (pjoin objectsDir ''7357489029210604552_temp_hash'')
       = commitContent merge_commit_diverged"
    by (simp add: repo_diverged_merged_def merge_commit_diverged_def eval_simps)
  have h1: "computeHash (message merge_commit_diverged @ author merge_commit_diverged
                    @ timestamp merge_commit_diverged) = ''7357489029210604552_temp_hash''"
    by (simp add: merge_commit_diverged_def eval_simps)
  have h2: "computeHash (commitContent merge_commit_diverged) = ''16282218738940369415_temp_hash''"
    by (simp add: merge_commit_diverged_def eval_simps)
  from m l r h1 h2 show ?thesis by blast
qed

section \<open>Merging from a detached HEAD\<close>

text \<open>
  Claim C8 says that \<open>merge\<close> from a detached HEAD is rejected with
  \<open>CannotMergeDetached\<close> and changes nothing. \<open>merge\<close> has no test for a detached HEAD:
  it takes HEAD's content from offset 16 on for the branch name. On \<open>repo_detached\<close> this
  gives the exit "Current branch '4047_temp_hash' has no commits". On
  \<open>repo_detached_tail\<close>, where a file of that name exists, the merge goes ahead as a
  fast-forward: it writes the ref \<open>refs/heads/4047_temp_hash\<close> and replaces the working
  tree. On \<open>repo_detached_short\<close>, where HEAD holds fewer than 16 characters,
  \<open>substr\<close> throws.
\<close>

theorem merge_detached_not_rejected:
  "\<not> startsWith (readFile repo_detached headFile) ''ref: ''
   \<and> merge repo_detached ''2024-01-04 10:00:00'' ''feature''
       = Some (Inl (NoCommits ''4047_temp_hash''), repo_detached)
   \<and> \<not> startsWith (readFile repo_detached_tail headFile) ''ref: ''
   \<and> map_of repo_detached_tail (pjoin refsDir ''4047_temp_hash'') = None
   \<and> readFile repo_detached_tail ''a.txt'' = ''hello'' @ [NL]
   \<and> map_option (\<lambda>r. (fst r, readFile (snd r) (pjoin refsDir ''4047_temp_hash''),
                            readFile (snd r) ''a.txt''))
         (merge repo_detached_tail ''2024-01-04 10:00:00'' ''feature'')
       = Some (Inr FastForward, ''12843856236805605873_temp_hash'',
               ''hello'' @ [NL] @ ''world'' @ [NL])
   \<and> \<not> startsWith (readFile repo_detached_short headFile) ''ref: ''
   \<and> merge repo_detached_short ''2024-01-04 10:00:00'' ''feature''
       = Some (Inl OutOfRange, repo_detached_short)"
proof -
  have a: "\<not> startsWith (readFile repo_detached headFile) ''ref: ''"
    "merge repo_detached ''2024-01-04 10:00:00'' ''feature''
       = Some (Inl (NoCommits ''4047_temp_hash''), repo_detached)"
    by (simp_all add: repo_detached_def merge_def eval_simps cong: let_weak_cong)
  have b: "\<not> startsWith (readFile repo_detached_tail headFile) ''ref: ''"
    "map_of repo_detached_tail (pjoin refsDir ''4047_temp_hash'') = None"
    "readFile repo_detached_tail ''a.txt'' = ''hello'' @ [NL]"
    by (simp_all add: repo_detached_tail_def eval_simps)
  have c: "map_option (\<lambda>r. (fst r, readFile (snd r) (pjoin refsDir ''4047_temp_hash''),
                            readFile (snd r) ''a.txt''))
         (merge repo_detached_tail ''2024-01-04 10:00:00'' ''feature'')
       = Some (Inr FastForward, ''12843856236805605873_temp_hash'',
               ''hello'' @ [NL] @ ''world'' @ [NL])"
    by (simp add: repo_detached_tail_def merge_def eval_simps cong: let_weak_cong)
  have d: "\<not> startsWith (readFile repo_detached_short headFile) ''ref: ''"
    "merge repo_detached_short ''2024-01-04 10:00:00'' ''feature''
       = Some (Inl OutOfRange, repo_detached_short)"
    by (simp_all add: repo_detached_short_def merge_def eval_simps cong: let_weak_cong)
  from a b c d show ?thesis by blast
qed

end
